theory Spec2Isabelle
  imports Main
begin

section \<open>ISO 8583 parser engine (src/src/parser.ts)\<close>

text \<open>
  A JavaScript string is a sequence of UTF-16 code units. The model uses \<open>string\<close>, whose
  characters are the code units below 256 (ASCII and Latin-1); every character the parser
  accepts is among them. Numbers are natural numbers: every number the parser computes is
  a non-negative integer (positions, lengths, field numbers).
\<close>

subsection \<open>Data model\<close>

record CodeLabel =
  cl_code :: "char option"
  cl_label :: string

record MTIInfo =
  mti_raw :: string
  mti_version :: CodeLabel
  mti_messageClass :: CodeLabel
  mti_function :: CodeLabel
  mti_origin :: CodeLabel
  mti_description :: string

record ParsedField =
  pf_de :: nat
  pf_name :: string
  pf_rawHex :: string
  pf_decodedValue :: string
  pf_length :: nat
  pf_format :: string
  pf_type :: string
  pf_category :: string
  pf_startPos :: nat
  pf_endPos :: nat
  pf_description :: "string option"

record BitmapInfo =
  bm_rawHex :: string
  bm_binary :: string
  bm_activeFields :: "nat list"
  bm_hasSecondary :: bool
  bm_startPos :: nat
  bm_endPos :: nat

record ParseError =
  err_message :: string
  err_position :: "nat option"
  err_field :: "nat option"

record HexSegment =
  seg_hex :: string
  seg_label :: string
  seg_category :: string
  seg_startPos :: nat
  seg_endPos :: nat
  seg_de :: "nat option"

record ParseResult =
  res_success :: bool
  res_mti :: "MTIInfo option"
  res_primaryBitmap :: "BitmapInfo option"
  res_secondaryBitmap :: "BitmapInfo option"
  res_fields :: "ParsedField list"
  res_errors :: "ParseError list"
  res_hexSegments :: "HexSegment list"

text \<open>
  The module \<open>./fieldSpecs\<close> that parser.ts imports is not part of the sources at hand.
  Its tables are parameters of the model. An entry of \<open>FIELD_SPECS\<close> has the members the
  parser reads: name, format, type, maxLength, category and the optional description.
  The lookup tables of the MTI digits are objects indexed by strings.
\<close>

record FieldSpec =
  spec_name :: string
  spec_format :: string
  spec_type :: string
  spec_maxLength :: nat
  spec_category :: string
  spec_description :: "string option"

type_synonym FieldSpecs = "nat \<Rightarrow> FieldSpec option"

type_synonym Table = "string \<Rightarrow> string option"

record MTITables =
  MTI_VERSION :: Table
  MTI_CLASS :: Table
  MTI_FUNCTION :: Table
  MTI_ORIGIN :: Table
  MTI_DESCRIPTIONS :: Table

subsection \<open>Strings and numbers of the host language\<close>

definition charCode :: "char \<Rightarrow> nat" where
  "charCode c = of_char c"

definition isDigit :: "char \<Rightarrow> bool" where
  "isDigit c = (48 \<le> charCode c \<and> charCode c \<le> 57)"

text \<open>The class \<open>[0-9A-F]\<close> under the flag \<open>i\<close>.\<close>

definition isHexChar :: "char \<Rightarrow> bool" where
  "isHexChar c = (isDigit c \<or> (65 \<le> charCode c \<and> charCode c \<le> 70)
                    \<or> (97 \<le> charCode c \<and> charCode c \<le> 102))"

text \<open>The class \<open>[\s\n\r]\<close>: tab, line feed, vertical tab, form feed, carriage return,
  space and the no-break space.\<close>

definition isWhitespace :: "char \<Rightarrow> bool" where
  "isWhitespace c = ((9 \<le> charCode c \<and> charCode c \<le> 13) \<or> charCode c = 32 \<or> charCode c = 160)"

text \<open>
  \<open>toUpperCase\<close>, one code unit at a time. The sharp s becomes two letters. The micro sign
  and the y with diaeresis have upper-case forms above 255; they stand for themselves
  here, which like their upper-case forms are no hex digits.
\<close>

definition upperChar :: "char \<Rightarrow> string" where
  "upperChar c =
     (if 97 \<le> charCode c \<and> charCode c \<le> 122 then [char_of (charCode c - 32)]
      else if charCode c = 223 then ''SS''
      else if 224 \<le> charCode c \<and> charCode c \<le> 254 \<and> charCode c \<noteq> 247
        then [char_of (charCode c - 32)]
      else [c])"

definition toUpperCase :: "string \<Rightarrow> string" where
  "toUpperCase s = concat (map upperChar s)"

text \<open>\<open>s.substring(a, b)\<close>: both ends are clamped to the string and swapped when out of
  order. \<open>s.substring(a)\<close> is \<open>drop a s\<close>.\<close>

definition substring :: "string \<Rightarrow> nat \<Rightarrow> nat \<Rightarrow> string" where
  "substring s a b = take (max a b - min a b) (drop (min a b) s)"

text \<open>\<open>s.includes(t)\<close>.\<close>

fun includesStr :: "string \<Rightarrow> string \<Rightarrow> bool" where
  "includesStr [] t = (t = [])"
| "includesStr (x # xs) t = (take (length t) (x # xs) = t \<or> includesStr xs t)"

text \<open>A number inside a template string: its decimal digits.\<close>

definition digitChar :: "nat \<Rightarrow> char" where
  "digitChar d = ''0123456789ABCDEF'' ! d"

fun showNat :: "nat \<Rightarrow> string" where
  "showNat n = (if n < 10 then [digitChar n] else showNat (n div 10) @ [digitChar (n mod 10)])"

declare showNat.simps [simp del]

text \<open>
  \<open>parseInt(s, radix)\<close>: the value of the longest prefix of digits of the radix, and NaN
  (\<open>None\<close>) when that prefix is empty. \<open>parseInt\<close> would also skip white space, a sign
  and, for radix 16, the prefix \<open>0x\<close> in front; the parser calls it on pieces of the
  validated hex string or, in \<open>hexToAscii\<close>, on chunks of at most two characters, where
  such a chunk holds at most one digit and yields the same character as NaN does.
\<close>

definition digitValue :: "char \<Rightarrow> nat option" where
  "digitValue c =
     (if isDigit c then Some (charCode c - 48)
      else if 65 \<le> charCode c \<and> charCode c \<le> 90 then Some (charCode c - 55)
      else if 97 \<le> charCode c \<and> charCode c \<le> 122 then Some (charCode c - 87)
      else None)"

definition parseInt :: "string \<Rightarrow> nat \<Rightarrow> nat option" where
  "parseInt s radix =
     (let ds = takeWhile (\<lambda>d. d < radix)
                 (map (\<lambda>c. case digitValue c of Some v \<Rightarrow> v | None \<Rightarrow> radix) s)
      in if ds = [] then None else Some (foldl (\<lambda>a d. a * radix + d) 0 ds))"

subsection \<open>Utilities\<close>

text \<open>\<open>parseInt(h, 16).toString(2).padStart(4, '0')\<close> for one character \<open>h\<close>;
  NaN prints as \<open>NaN\<close>.\<close>

definition nibbleBinary :: "char \<Rightarrow> string" where
  "nibbleBinary h =
     (case parseInt [h] 16 of
        None \<Rightarrow> ''0NaN''
      | Some v \<Rightarrow> map (\<lambda>k. if (v div 2 ^ k) mod 2 = 1 then CHR ''1'' else CHR ''0'') [3, 2, 1, 0])"

definition hexToBinary :: "string \<Rightarrow> string" where
  "hexToBinary hex = concat (map nibbleBinary hex)"

definition asciiChar :: "string \<Rightarrow> char" where
  "asciiChar chunk =
     (case parseInt chunk 16 of
        None \<Rightarrow> CHR ''.''
      | Some code \<Rightarrow> if 32 \<le> code \<and> code \<le> 126 then char_of code else CHR ''.'')"

fun hexToAscii :: "string \<Rightarrow> string" where
  "hexToAscii [] = []"
| "hexToAscii [a] = [asciiChar [a]]"
| "hexToAscii (a # b # rest) = asciiChar [a, b] # hexToAscii rest"

subsection \<open>decodeMTI\<close>

text \<open>\<open>TABLE[digit] || 'Unknown'\<close>: a missing digit is the key \<open>undefined\<close>, and an
  empty label is falsy.\<close>

definition orElse :: "string option \<Rightarrow> string \<Rightarrow> string" where
  "orElse v d = (case v of None \<Rightarrow> d | Some l \<Rightarrow> if l = [] then d else l)"

definition digitAt :: "string \<Rightarrow> nat \<Rightarrow> char option" where
  "digitAt s i = (if i < length s then Some (s ! i) else None)"

definition resolveDigit :: "Table \<Rightarrow> char option \<Rightarrow> CodeLabel" where
  "resolveDigit table d =
     \<lparr>cl_code = d,
      cl_label = orElse (table (case d of None \<Rightarrow> ''undefined'' | Some c \<Rightarrow> [c])) ''Unknown''\<rparr>"

definition isFourDigits :: "string \<Rightarrow> bool" where
  "isFourDigits s = (length s = 4 \<and> list_all isDigit s)"

definition logicalMTI :: "string \<Rightarrow> string" where
  "logicalMTI mtiHex =
     (let mtiStr = (if length mtiHex \<ge> 8 \<and> isFourDigits (hexToAscii (substring mtiHex 0 8))
                    then hexToAscii (substring mtiHex 0 8) else mtiHex)
      in if length mtiStr = 4 \<and> isFourDigits mtiStr then mtiStr
         else if length mtiStr \<ge> 4 then substring mtiStr 0 4
         else mtiStr)"

definition decodeMTI :: "MTITables \<Rightarrow> string \<Rightarrow> MTIInfo" where
  "decodeMTI T mtiHex =
     (let mtiStr = logicalMTI mtiHex in
      \<lparr>mti_raw = mtiStr,
       mti_version = resolveDigit (MTI_VERSION T) (digitAt mtiStr 0),
       mti_messageClass = resolveDigit (MTI_CLASS T) (digitAt mtiStr 1),
       mti_function = resolveDigit (MTI_FUNCTION T) (digitAt mtiStr 2),
       mti_origin = resolveDigit (MTI_ORIGIN T) (digitAt mtiStr 3),
       mti_description = orElse (MTI_DESCRIPTIONS T mtiStr) (''Message Type '' @ mtiStr)\<rparr>)"

subsection \<open>decodeBitmap\<close>

definition decodeBitmap :: "string \<Rightarrow> nat list \<times> string" where
  "decodeBitmap hexStr =
     (let binary = hexToBinary hexStr
      in ([i + 1. i \<leftarrow> [0..<length binary], binary ! i = CHR ''1''], binary))"

subsection \<open>parseISO8583\<close>

text \<open>The local variables that the loop over the active fields updates.\<close>

record LoopState =
  cur_pos :: nat
  cur_errors :: "ParseError list"
  cur_fields :: "ParsedField list"
  cur_segments :: "HexSegment list"

text \<open>One pass through the loop body ends in \<open>continue\<close> (or falls off its end) or in
  \<open>break\<close>.\<close>

datatype Step = Continue LoopState | Break LoopState

definition logError :: "string \<Rightarrow> nat option \<Rightarrow> nat option \<Rightarrow> LoopState \<Rightarrow> LoopState" where
  "logError msg p f st =
     st\<lparr>cur_errors := cur_errors st @ [\<lparr>err_message = msg, err_position = p, err_field = f\<rparr>]\<rparr>"

text \<open>The two \<open>push\<close> calls that end the loop body (lines 375 to 396); \<open>cur_pos st\<close> is
  the cursor after the field.\<close>

definition pushField ::
  "nat \<Rightarrow> FieldSpec \<Rightarrow> nat \<Rightarrow> string \<Rightarrow> string \<Rightarrow> nat \<Rightarrow> LoopState \<Rightarrow> LoopState" where
  "pushField fieldNum spec fieldStartPos fieldHex fieldValue fieldLength st =
     st\<lparr>cur_fields := cur_fields st @
           [\<lparr>pf_de = fieldNum, pf_name = spec_name spec, pf_rawHex = fieldHex,
             pf_decodedValue = fieldValue, pf_length = fieldLength,
             pf_format = spec_format spec, pf_type = spec_type spec,
             pf_category = spec_category spec, pf_startPos = fieldStartPos,
             pf_endPos = cur_pos st, pf_description = spec_description spec\<rparr>],
        cur_segments := cur_segments st @
           [\<lparr>seg_hex = fieldHex,
             seg_label = ''DE '' @ showNat fieldNum @ '': '' @ spec_name spec,
             seg_category = spec_category spec, seg_startPos = fieldStartPos,
             seg_endPos = cur_pos st, seg_de = Some fieldNum\<rparr>]\<rparr>"

text \<open>The branch \<open>FIXED\<close> (lines 257 to 291).\<close>

definition fixedHexLen :: "FieldSpec \<Rightarrow> nat" where
  "fixedHexLen spec =
     (if spec_type spec = ''b'' then spec_maxLength spec * 2
      else if spec_type spec = ''n'' \<or> spec_type spec = ''x+n''
        then (if spec_maxLength spec mod 2 \<noteq> 0 then spec_maxLength spec + 1
              else spec_maxLength spec)
      else spec_maxLength spec * 2)"

definition fixedValue :: "FieldSpec \<Rightarrow> string \<Rightarrow> string" where
  "fixedValue spec fieldHex =
     (if spec_type spec = ''n'' \<or> spec_type spec = ''x+n'' then fieldHex
      else if spec_type spec = ''b'' then fieldHex
      else hexToAscii fieldHex)"

definition parseFixed :: "string \<Rightarrow> nat \<Rightarrow> FieldSpec \<Rightarrow> LoopState \<Rightarrow> Step" where
  "parseFixed hex fieldNum spec st =
     (let pos = cur_pos st; hexLen = fixedHexLen spec in
      if pos + hexLen > length hex then
        (let st1 = logError (''DE '' @ showNat fieldNum @ '': Expected '' @ showNat hexLen
                       @ '' hex chars but only '' @ showNat (length hex - pos) @ '' remain.'')
                     (Some pos) (Some fieldNum) st;
             fieldHex = drop pos hex
         in Continue (pushField fieldNum spec pos fieldHex (fixedValue spec fieldHex) (hexLen div 2)
                        (st1\<lparr>cur_pos := length hex\<rparr>)))
      else
        (let fieldHex = substring hex pos (pos + hexLen)
         in Continue (pushField fieldNum spec pos fieldHex (fixedValue spec fieldHex) (hexLen div 2)
                        (st\<lparr>cur_pos := pos + hexLen\<rparr>))))"

text \<open>
  The branches \<open>LLVAR\<close> (lines 293 to 330) and \<open>LLLVAR\<close> (lines 332 to 368) are the same
  code but for the width \<open>w\<close> of the length prefix (2 and 4) and two messages.
  \<open>dataLen < 0\<close> never holds, since the prefix is a piece of the validated hex string.
  For a truncated field \<open>pos - hexLen\<close> can be negative in the source, where
  \<open>substring\<close> clamps it to 0; the subtraction of natural numbers gives 0 as well.
\<close>

definition varHexLen :: "FieldSpec \<Rightarrow> nat \<Rightarrow> nat" where
  "varHexLen spec dataLen =
     (if spec_type spec = ''n'' then (if dataLen mod 2 = 0 then dataLen else dataLen + 1)
      else dataLen * 2)"

definition varValue :: "FieldSpec \<Rightarrow> string \<Rightarrow> string" where
  "varValue spec dat = (if spec_type spec = ''n'' then dat else hexToAscii dat)"

definition parseVar ::
  "nat \<Rightarrow> string \<Rightarrow> (string \<Rightarrow> string) \<Rightarrow> string \<Rightarrow> nat \<Rightarrow> FieldSpec \<Rightarrow> LoopState \<Rightarrow> Step" where
  "parseVar w prefixMsg invalidMsg hex fieldNum spec st =
     (let pos = cur_pos st in
      if pos + w > length hex then
        Break (logError (''DE '' @ showNat fieldNum @ prefixMsg) (Some pos) (Some fieldNum) st)
      else
        (let lenStr = substring hex pos (pos + w);
             dataLen = parseInt lenStr 10;
             pos1 = pos + w
         in case dataLen of
              None \<Rightarrow>
                Continue (logError (''DE '' @ showNat fieldNum @ invalidMsg lenStr)
                            (Some (pos1 - w)) (Some fieldNum) (st\<lparr>cur_pos := pos1\<rparr>))
            | Some n \<Rightarrow>
                if n > spec_maxLength spec then
                  Continue (logError (''DE '' @ showNat fieldNum @ invalidMsg lenStr)
                              (Some (pos1 - w)) (Some fieldNum) (st\<lparr>cur_pos := pos1\<rparr>))
                else
                  (let hexLen = varHexLen spec n in
                   if pos1 + hexLen > length hex then
                     (let st1 = logError (''DE '' @ showNat fieldNum @ '': Expected ''
                                    @ showNat hexLen @ '' hex chars for data but only ''
                                    @ showNat (length hex - pos1) @ '' remain.'')
                                  (Some pos1) (Some fieldNum) st;
                          fieldHex = lenStr @ drop pos1 hex;
                          pos2 = length hex
                      in Continue (pushField fieldNum spec pos fieldHex
                                     (varValue spec (substring hex (pos2 - hexLen) pos2)) n
                                     (st1\<lparr>cur_pos := pos2\<rparr>)))
                   else
                     (let fieldHex = lenStr @ substring hex pos1 (pos1 + hexLen);
                          pos2 = pos1 + hexLen
                      in Continue (pushField fieldNum spec pos fieldHex
                                     (varValue spec (substring hex (pos2 - hexLen) pos2)) n
                                     (st\<lparr>cur_pos := pos2\<rparr>))))))"

text \<open>
  The loop body (lines 238 to 396). Nothing inside the \<open>try\<close> block raises, so the
  \<open>catch\<close> clause is never entered. A format that is none of the three leaves the field
  empty and still pushes it.
\<close>

definition parseField :: "FieldSpecs \<Rightarrow> string \<Rightarrow> nat \<Rightarrow> LoopState \<Rightarrow> Step" where
  "parseField FIELD_SPECS hex fieldNum st =
     (case FIELD_SPECS fieldNum of
        None \<Rightarrow>
          Continue (logError (''No spec for DE '' @ showNat fieldNum @ ''. Skipping.'')
                      None (Some fieldNum) st)
      | Some spec \<Rightarrow>
          if cur_pos st \<ge> length hex then
            Break (logError (''Ran out of data at DE '' @ showNat fieldNum @ ''.'')
                     (Some (cur_pos st)) (Some fieldNum) st)
          else if spec_format spec = ''FIXED'' then parseFixed hex fieldNum spec st
          else if spec_format spec = ''LLVAR'' then
            parseVar 2 '': Not enough data for LLVAR length prefix.''
              (\<lambda>lenStr. '': Invalid LLVAR length '' @ lenStr @ '' (max ''
                           @ showNat (spec_maxLength spec) @ '').'')
              hex fieldNum spec st
          else if spec_format spec = ''LLLVAR'' then
            parseVar 4 '': Not enough data for LLLVAR length prefix (need 4 hex chars).''
              (\<lambda>lenStr. '': Invalid LLLVAR length '' @ lenStr @ ''.'')
              hex fieldNum spec st
          else Continue (pushField fieldNum spec (cur_pos st) [] [] 0 st))"

fun fieldLoop :: "FieldSpecs \<Rightarrow> string \<Rightarrow> nat list \<Rightarrow> LoopState \<Rightarrow> LoopState" where
  "fieldLoop FIELD_SPECS hex [] st = st"
| "fieldLoop FIELD_SPECS hex (fieldNum # rest) st =
     (case parseField FIELD_SPECS hex fieldNum st of
        Continue st' \<Rightarrow> fieldLoop FIELD_SPECS hex rest st'
      | Break st' \<Rightarrow> st')"

text \<open>The check for remaining unparsed data (lines 400 to 410).\<close>

definition trailingData :: "string \<Rightarrow> LoopState \<Rightarrow> LoopState" where
  "trailingData hex st =
     (if cur_pos st < length hex then
        (let remaining = drop (cur_pos st) hex;
             st1 = logError (showNat (length remaining)
                       @ '' unparsed hex characters remaining after field parsing.'')
                     (Some (cur_pos st)) None st
         in st1\<lparr>cur_segments := cur_segments st1 @
                  [\<lparr>seg_hex = remaining, seg_label = ''Unparsed Data'', seg_category = ''error'',
                    seg_startPos = cur_pos st, seg_endPos = length hex, seg_de = None\<rparr>]\<rparr>)
      else st)"

text \<open>The value of \<open>success\<close> in the last \<open>return\<close> (line 413).\<close>

definition overallSuccess :: "ParseError list \<Rightarrow> bool" where
  "overallSuccess errors =
     (length (filter (\<lambda>e. \<not> includesStr (err_message e) ''No spec''
                          \<and> \<not> includesStr (err_message e) ''unparsed'') errors) = 0)"

definition normalizeInput :: "string \<Rightarrow> string" where
  "normalizeInput inputHex = toUpperCase (filter (\<lambda>c. \<not> isWhitespace c) inputHex)"

definition failure :: "string \<Rightarrow> ParseResult" where
  "failure msg =
     \<lparr>res_success = False, res_mti = None, res_primaryBitmap = None,
      res_secondaryBitmap = None, res_fields = [],
      res_errors = [\<lparr>err_message = msg, err_position = None, err_field = None\<rparr>],
      res_hexSegments = []\<rparr>"

definition mtiSegment :: "MTIInfo \<Rightarrow> string \<Rightarrow> HexSegment" where
  "mtiSegment m mtiHex =
     \<lparr>seg_hex = mtiHex, seg_label = ''MTI: '' @ mti_raw m, seg_category = ''mti'',
      seg_startPos = 0, seg_endPos = 4, seg_de = None\<rparr>"

definition bitmapSegment :: "string \<Rightarrow> string \<Rightarrow> nat \<Rightarrow> HexSegment" where
  "bitmapSegment bitmapHex lbl pos =
     \<lparr>seg_hex = bitmapHex, seg_label = lbl, seg_category = ''bitmap'',
      seg_startPos = pos, seg_endPos = pos + 16, seg_de = None\<rparr>"

definition primaryBitmapInfo :: "string \<Rightarrow> nat \<Rightarrow> BitmapInfo" where
  "primaryBitmapInfo primaryBitmapHex pos =
     (let primaryDecoded = decodeBitmap primaryBitmapHex in
      \<lparr>bm_rawHex = primaryBitmapHex, bm_binary = snd primaryDecoded,
       bm_activeFields = filter (\<lambda>f. f \<ge> 2 \<and> f \<le> 64) (fst primaryDecoded),
       bm_hasSecondary = (take 1 (snd primaryDecoded) = ''1''),
       bm_startPos = pos, bm_endPos = pos + 16\<rparr>)"

definition secondaryBitmapInfo :: "string \<Rightarrow> nat \<Rightarrow> BitmapInfo" where
  "secondaryBitmapInfo secondaryBitmapHex pos =
     (let secondaryDecoded = decodeBitmap secondaryBitmapHex in
      \<lparr>bm_rawHex = secondaryBitmapHex, bm_binary = snd secondaryDecoded,
       bm_activeFields = map (\<lambda>f. f + 64) (fst secondaryDecoded),
       bm_hasSecondary = False, bm_startPos = pos, bm_endPos = pos + 16\<rparr>)"

text \<open>
  The steps between the MTI and the loop (lines 186 to 234): the primary bitmap, the
  secondary bitmap when bit 1 asks for it and 16 characters are left, the list of all
  active fields, and the cursor, errors and segments with which the loop starts.
\<close>

definition primaryBitmapOf :: "string \<Rightarrow> BitmapInfo" where
  "primaryBitmapOf hex = primaryBitmapInfo (substring hex 4 (4 + 16)) 4"

definition secondaryBitmapOf :: "string \<Rightarrow> BitmapInfo option" where
  "secondaryBitmapOf hex =
     (if bm_hasSecondary (primaryBitmapOf hex) \<and> \<not> 20 + 16 > length hex
      then Some (secondaryBitmapInfo (substring hex 20 (20 + 16)) 20) else None)"

definition allActiveFields :: "string \<Rightarrow> nat list" where
  "allActiveFields hex =
     bm_activeFields (primaryBitmapOf hex) @
       (case secondaryBitmapOf hex of None \<Rightarrow> [] | Some b \<Rightarrow> bm_activeFields b)"

definition loopEntry :: "MTITables \<Rightarrow> string \<Rightarrow> LoopState" where
  "loopEntry T hex =
     (let mtiHex = substring hex 0 4;
          seg1 = [mtiSegment (decodeMTI T mtiHex) mtiHex,
                  bitmapSegment (substring hex 4 (4 + 16)) ''Primary Bitmap'' 4];
          st0 = \<lparr>cur_pos = 20, cur_errors = [], cur_fields = [], cur_segments = seg1\<rparr>
      in if bm_hasSecondary (primaryBitmapOf hex) then
           (if 20 + 16 > length hex then
              logError ''Bit 1 indicates secondary bitmap but hex is too short.''
                (Some 20) None st0
            else
              st0\<lparr>cur_pos := 20 + 16,
                  cur_segments := seg1 @
                    [bitmapSegment (substring hex 20 (20 + 16)) ''Secondary Bitmap'' 20]\<rparr>)
         else st0)"

definition parseISO8583 :: "FieldSpecs \<Rightarrow> MTITables \<Rightarrow> string \<Rightarrow> ParseResult" where
  "parseISO8583 FIELD_SPECS T inputHex =
     (let hex = normalizeInput inputHex in
      if hex = [] \<or> length hex < 4 then
        failure ''Input too short. Minimum 4 characters for MTI.''
      else if \<not> list_all isHexChar hex then
        failure ''Invalid characters detected. Only hex characters (0-9, A-F) are allowed.''
      else
        (let mtiHex = substring hex 0 4;
             mti = decodeMTI T mtiHex
         in if 4 + 16 > length hex then
              \<lparr>res_success = True, res_mti = Some mti, res_primaryBitmap = None,
               res_secondaryBitmap = None, res_fields = [],
               res_errors =
                 [\<lparr>err_message =
                     ''Hex too short for primary bitmap (need 16 more hex chars / 8 bytes).'',
                   err_position = Some 4, err_field = None\<rparr>],
               res_hexSegments = [mtiSegment mti mtiHex]\<rparr>
            else
              (let st = trailingData hex
                          (fieldLoop FIELD_SPECS hex (allActiveFields hex) (loopEntry T hex))
               in \<lparr>res_success = overallSuccess (cur_errors st), res_mti = Some mti,
                   res_primaryBitmap = Some (primaryBitmapOf hex),
                   res_secondaryBitmap = secondaryBitmapOf hex,
                   res_fields = cur_fields st, res_errors = cur_errors st,
                   res_hexSegments = cur_segments st\<rparr>)))"

text \<open>
  A table for running the parser on concrete messages. Its entries are the ones the
  comments of the preset builders (src/unnamed/part\_000) and the scenarios of the
  specification describe: DE 2 is LLVAR numeric of at most 19 digits, DE 3 is six digits,
  DE 41 is eight characters, DE 70 is three digits. Names and categories are
  placeholders.
\<close>

definition mkSpec :: "string \<Rightarrow> string \<Rightarrow> nat \<Rightarrow> FieldSpec" where
  "mkSpec fmt ty n =
     \<lparr>spec_name = ''DE'', spec_format = fmt, spec_type = ty, spec_maxLength = n,
      spec_category = ''private'', spec_description = None\<rparr>"

definition presetSpecs :: FieldSpecs where
  "presetSpecs n =
     (if n = 2 then Some (mkSpec ''LLVAR'' ''n'' 19)
      else if n = 3 then Some (mkSpec ''FIXED'' ''n'' 6)
      else if n = 7 then Some (mkSpec ''FIXED'' ''n'' 10)
      else if n = 11 then Some (mkSpec ''FIXED'' ''n'' 6)
      else if n = 35 then Some (mkSpec ''LLVAR'' ''z'' 37)
      else if n = 41 then Some (mkSpec ''FIXED'' ''ans'' 8)
      else if n = 70 then Some (mkSpec ''FIXED'' ''n'' 3)
      else None)"


definition noTables :: MTITables where
  "noTables =
     \<lparr>MTI_VERSION = (\<lambda>k. None), MTI_CLASS = (\<lambda>k. None), MTI_FUNCTION = (\<lambda>k. None),
      MTI_ORIGIN = (\<lambda>k. None), MTI_DESCRIPTIONS = (\<lambda>k. None)\<rparr>"

subsection \<open>Reading a bitmap as a number\<close>

text \<open>
  Bit position \<open>i\<close> (counted from 1, most significant bit first) of the bit vector that
  the hex digits \<open>h\<close> write: digit \<open>(i - 1) div 4\<close> holds it, at binary weight
  \<open>2 ^ (3 - (i - 1) mod 4)\<close>.
\<close>

definition bitSet :: "string \<Rightarrow> nat \<Rightarrow> bool" where
  "bitSet h i =
     ((i - 1) div 4 < length h \<and>
      (case digitValue (h ! ((i - 1) div 4)) of
         None \<Rightarrow> False
       | Some v \<Rightarrow> (v div 2 ^ (3 - (i - 1) mod 4)) mod 2 = 1))"

subsection \<open>Printable text of a run of bytes\<close>

text \<open>
  The conversion of hex to printable characters in the words of the specification: every
  pair of hex digits is a byte, a byte from 32 to 126 is its character, and any other
  byte is the placeholder, a full stop.
\<close>

fun bytesOf :: "string \<Rightarrow> nat list" where
  "bytesOf (a # b # rest) =
     (16 * (case digitValue a of Some v \<Rightarrow> v | None \<Rightarrow> 0)
        + (case digitValue b of Some v \<Rightarrow> v | None \<Rightarrow> 0)) # bytesOf rest"
| "bytesOf [a] = []"
| "bytesOf [] = []"

definition printableText :: "string \<Rightarrow> string" where
  "printableText h = map (\<lambda>v. if 32 \<le> v \<and> v \<le> 126 then char_of v else CHR ''.'') (bytesOf h)"

subsection \<open>The declared length of a variable-length field\<close>

text \<open>The number that a string of decimal digits writes.\<close>

definition decimalValue :: "string \<Rightarrow> nat" where
  "decimalValue s = foldl (\<lambda>a c. a * 10 + (charCode c - 48)) 0 s"

subsection \<open>Segments and the ranges they claim\<close>

text \<open>A segment is consistent when its range lies inside the string and its \<open>hex\<close>
  is the piece of the string at that range. The loop keeps the cursor inside the string
  and every segment consistent.\<close>

definition segmentInRange :: "string \<Rightarrow> HexSegment \<Rightarrow> bool" where
  "segmentInRange hex seg =
     (seg_startPos seg \<le> seg_endPos seg \<and> seg_endPos seg \<le> length hex
      \<and> seg_hex seg = take (seg_endPos seg - seg_startPos seg) (drop (seg_startPos seg) hex))"

definition loopInv :: "string \<Rightarrow> LoopState \<Rightarrow> bool" where
  "loopInv hex st = (cur_pos st \<le> length hex \<and> list_all (segmentInRange hex) (cur_segments st))"

section \<open>Building messages (src/unnamed/part\_000)\<close>

text \<open>\<open>byte.toString(16).padStart(2, '0').toUpperCase()\<close> for a byte.\<close>

definition byteHex :: "nat \<Rightarrow> string" where
  "byteHex b = [digitChar (b div 16), digitChar (b mod 16)]"

text \<open>
  The two nested loops of \<open>buildBitmap\<close> and \<open>buildDualBitmap\<close> that turn 64 bits into
  16 hex characters; \<open>(byte << 1) | bit\<close> is \<open>byte * 2 + bit\<close> for a bit that is 0 or 1.
\<close>

definition bitmapHex :: "(nat \<Rightarrow> bool) \<Rightarrow> string" where
  "bitmapHex bits =
     concat (map (\<lambda>i. byteHex (foldl (\<lambda>byte b. byte * 2 + (if bits (i * 8 + b) then 1 else 0))
                                 0 [0..<8]))
               [0..<8])"

text \<open>\<open>bits[f - 1] = 1\<close> for every field from 1 to 64.\<close>

definition buildBitmap :: "nat list \<Rightarrow> string" where
  "buildBitmap fieldList = bitmapHex (\<lambda>k. \<exists>f \<in> set fieldList. f \<ge> 1 \<and> f \<le> 64 \<and> f - 1 = k)"

text \<open>\<open>secBits[f - 65] = 1\<close> for every field above 64; a write past the end of the typed
  array has no effect, and only the bits 0 to 63 are read.\<close>

definition buildDualBitmap :: "nat list \<Rightarrow> string" where
  "buildDualBitmap fieldList =
     (let primaryFields = filter (\<lambda>f. f \<le> 64) fieldList;
          secondaryFields = filter (\<lambda>f. f > 64) fieldList;
          primaryFields' = (if secondaryFields \<noteq> [] \<and> 1 \<notin> set primaryFields
                            then primaryFields @ [1] else primaryFields);
          primary = buildBitmap primaryFields'
      in if secondaryFields = [] then primary
         else primary @ bitmapHex (\<lambda>k. \<exists>f \<in> set secondaryFields. f - 65 = k))"

definition asciiToHex :: "string \<Rightarrow> string" where
  "asciiToHex str = concat (map (\<lambda>c. byteHex (charCode c)) str)"

text \<open>The characters a builder writes: upper-case hex digits, and text of printable
  ASCII.\<close>

definition isUpperHex :: "char \<Rightarrow> bool" where
  "isUpperHex c = (isDigit c \<or> (65 \<le> charCode c \<and> charCode c \<le> 70))"

definition isPrintable :: "char \<Rightarrow> bool" where
  "isPrintable c = (32 \<le> charCode c \<and> charCode c \<le> 126)"

subsection \<open>Well-formed messages\<close>

text \<open>
  A well-formed message in the words of the specification: some field numbers are
  chosen, exactly their bits are set, and a valid payload is written for each field. A
  payload is the hex digits written for a fixed numeric or binary field (\<open>Hex\<close>), a
  declared length with the hex digits written for a variable-length numeric or binary
  field (\<open>VarHex\<close>), or the text of a text field (\<open>Text\<close>).
\<close>

datatype Payload = Hex string | VarHex nat string | Text string

text \<open>\<open>s.padStart(n, c)\<close>, as the preset builders use it for a length prefix:
  two characters for LLVAR, four for LLLVAR.\<close>

definition padStart :: "nat \<Rightarrow> char \<Rightarrow> string \<Rightarrow> string" where
  "padStart n c s = replicate (n - length s) c @ s"

definition lengthPrefix :: "FieldSpec \<Rightarrow> nat \<Rightarrow> string" where
  "lengthPrefix spec n =
     padStart (if spec_format spec = ''LLVAR'' then 2 else 4) (CHR ''0'') (showNat n)"

text \<open>\<open>numHex\<close> of the preset builders pads a decimal value to the hex digits of a
  fixed numeric field.\<close>

definition numHex :: "string \<Rightarrow> nat \<Rightarrow> string" where
  "numHex val maxLen =
     (let padded = padStart maxLen (CHR ''0'') val
      in if maxLen mod 2 \<noteq> 0 then ''0'' @ padded else padded)"

fun wireOf :: "FieldSpec \<Rightarrow> Payload \<Rightarrow> string" where
  "wireOf spec (Hex w) = w"
| "wireOf spec (VarHex n w) = lengthPrefix spec n @ w"
| "wireOf spec (Text t) =
     (if spec_format spec = ''FIXED'' then asciiToHex t
      else lengthPrefix spec (length t) @ asciiToHex t)"

text \<open>
  A payload is valid for a specification as sections 3 and 4.3 of the specification
  have it. \<open>maxLength\<close> is positive. A fixed numeric field (\<open>n\<close>, \<open>x+n\<close>) carries
  \<open>maxLength\<close> rounded up to even hex digits, a fixed binary field \<open>maxLength * 2\<close>, a
  fixed text field \<open>maxLength\<close> printable characters. A variable-length field declares
  a length of at most \<open>maxLength\<close> that fits its prefix (two or three decimal digits);
  it is numeric (\<open>n\<close>, \<open>x+n\<close>), with that length rounded up to even hex digits,
  binary (\<open>b\<close>), with that many bytes, which is twice as many hex digits, or of a text
  type, with that many printable characters.
\<close>

definition roundUpEven :: "nat \<Rightarrow> nat" where
  "roundUpEven n = 2 * ((n + 1) div 2)"

definition isTextType :: "string \<Rightarrow> bool" where
  "isTextType ty = (ty \<noteq> ''n'' \<and> ty \<noteq> ''x+n'' \<and> ty \<noteq> ''b'')"

definition isVariable :: "FieldSpec \<Rightarrow> nat \<Rightarrow> bool" where
  "isVariable spec n =
     ((spec_format spec = ''LLVAR'' \<and> n < 100 \<or> spec_format spec = ''LLLVAR'' \<and> n < 1000)
      \<and> n \<le> spec_maxLength spec)"

fun validPayload :: "FieldSpec \<Rightarrow> Payload \<Rightarrow> bool" where
  "validPayload spec (Hex w) =
     (spec_format spec = ''FIXED'' \<and> 0 < spec_maxLength spec \<and> list_all isUpperHex w
      \<and> ((spec_type spec = ''n'' \<or> spec_type spec = ''x+n'')
             \<and> length w = roundUpEven (spec_maxLength spec)
          \<or> spec_type spec = ''b'' \<and> length w = 2 * spec_maxLength spec))"
| "validPayload spec (VarHex n w) =
     (isVariable spec n \<and> list_all isUpperHex w
      \<and> ((spec_type spec = ''n'' \<or> spec_type spec = ''x+n'') \<and> length w = roundUpEven n
          \<or> spec_type spec = ''b'' \<and> length w = 2 * n))"
| "validPayload spec (Text t) =
     (isTextType (spec_type spec) \<and> list_all isPrintable t
      \<and> (spec_format spec = ''FIXED'' \<and> 0 < spec_maxLength spec
             \<and> length t = spec_maxLength spec
          \<or> isVariable spec (length t)))"

text \<open>
  The variable-length branches of the parser (lines 310, 326, 348 and 364) tell the type
  \<open>n\<close> from all others, the fixed-length branch (lines 260-262 and 285-287) the types
  \<open>b\<close>, \<open>n\<close> and \<open>x+n\<close> from all others. A specification is read the same way by both
  when it is fixed-length, or variable-length of another type than \<open>b\<close> and \<open>x+n\<close>.
\<close>

definition readAlike :: "FieldSpec \<Rightarrow> bool" where
  "readAlike spec =
     (spec_format spec = ''FIXED'' \<or> (spec_type spec \<noteq> ''b'' \<and> spec_type spec \<noteq> ''x+n''))"

text \<open>What was written, to be compared with the decoded value.\<close>

fun written :: "Payload \<Rightarrow> string" where
  "written (Hex w) = w"
| "written (VarHex n w) = w"
| "written (Text t) = t"

definition buildMessage :: "FieldSpecs \<Rightarrow> string \<Rightarrow> nat list \<Rightarrow> (nat \<Rightarrow> Payload) \<Rightarrow> string" where
  "buildMessage FIELD_SPECS mti fieldList payload =
     mti @ buildDualBitmap fieldList @
       concat (map (\<lambda>f. case FIELD_SPECS f of None \<Rightarrow> []
                         | Some spec \<Rightarrow> wireOf spec (payload f)) fieldList)"

text \<open>The field and the segment that the parser is to return for a payload that starts
  at position \<open>start\<close>.\<close>

definition fieldOf :: "nat \<Rightarrow> FieldSpec \<Rightarrow> Payload \<Rightarrow> nat \<Rightarrow> ParsedField" where
  "fieldOf f spec p start =
     \<lparr>pf_de = f, pf_name = spec_name spec, pf_rawHex = wireOf spec p,
      pf_decodedValue = written p,
      pf_length = (case p of Hex w \<Rightarrow> length w div 2 | VarHex n w \<Rightarrow> n
                   | Text t \<Rightarrow> length t),
      pf_format = spec_format spec, pf_type = spec_type spec,
      pf_category = spec_category spec, pf_startPos = start,
      pf_endPos = start + length (wireOf spec p), pf_description = spec_description spec\<rparr>"

definition segmentOf :: "nat \<Rightarrow> FieldSpec \<Rightarrow> Payload \<Rightarrow> nat \<Rightarrow> HexSegment" where
  "segmentOf f spec p start =
     \<lparr>seg_hex = wireOf spec p, seg_label = ''DE '' @ showNat f @ '': '' @ spec_name spec,
      seg_category = spec_category spec, seg_startPos = start,
      seg_endPos = start + length (wireOf spec p), seg_de = Some f\<rparr>"


section \<open>Properties\<close>

subsection \<open>Fatal preconditions\<close>

text \<open>
  Claim C8. When the normalized input is empty, shorter than four characters or holds a
  character that is no hex digit, \<open>parseISO8583\<close> returns the failure-only result:
  \<open>success\<close> is false, the MTI and both bitmaps are absent, there are no fields and no
  segments, and there is exactly one error.
\<close>

theorem fatal_precondition:
  assumes "normalizeInput inputHex = [] \<or> length (normalizeInput inputHex) < 4
           \<or> (\<exists>c \<in> set (normalizeInput inputHex). \<not> isHexChar c)"
  shows "res_success (parseISO8583 FIELD_SPECS T inputHex) = False
         \<and> res_mti (parseISO8583 FIELD_SPECS T inputHex) = None
         \<and> res_primaryBitmap (parseISO8583 FIELD_SPECS T inputHex) = None
         \<and> res_secondaryBitmap (parseISO8583 FIELD_SPECS T inputHex) = None
         \<and> res_fields (parseISO8583 FIELD_SPECS T inputHex) = []
         \<and> res_hexSegments (parseISO8583 FIELD_SPECS T inputHex) = []
         \<and> length (res_errors (parseISO8583 FIELD_SPECS T inputHex)) = 1"
  using assms
  by (auto simp: parseISO8583_def failure_def Let_def list_all_iff)

theorem fatal_precondition_witness:
  "(\<exists>c \<in> set (normalizeInput ''12 g4''). \<not> isHexChar c)
   \<and> res_success (parseISO8583 presetSpecs noTables ''12 g4'') = False
   \<and> res_mti (parseISO8583 presetSpecs noTables ''12 g4'') = None
   \<and> res_fields (parseISO8583 presetSpecs noTables ''12 g4'') = []
   \<and> res_hexSegments (parseISO8583 presetSpecs noTables ''12 g4'') = []
   \<and> length (res_errors (parseISO8583 presetSpecs noTables ''12 g4'')) = 1"
proof -
  have h: "\<exists>c \<in> set (normalizeInput ''12 g4''). \<not> isHexChar c"
    by code_simp
  then show ?thesis
    using fatal_precondition [of "''12 g4''" presetSpecs noTables] by blast
qed

subsection \<open>Too short for the primary bitmap\<close>

text \<open>
  The return taken when fewer than 16 characters follow the MTI (lines 174-184): the
  MTI is decoded, both bitmaps are absent, there is no field, the MTI segment stands
  alone and one error reports the shortfall at position 4. The flag \<open>success\<close> is the
  literal \<open>true\<close> of that return.
\<close>

lemma shortfall_result:
  assumes "list_all isHexChar (normalizeInput inputHex)"
    and "4 \<le> length (normalizeInput inputHex)"
    and "length (normalizeInput inputHex) - 4 < 16"
  shows "parseISO8583 FIELD_SPECS T inputHex =
           \<lparr>res_success = True,
            res_mti = Some (decodeMTI T (take 4 (normalizeInput inputHex))),
            res_primaryBitmap = None, res_secondaryBitmap = None, res_fields = [],
            res_errors =
              [\<lparr>err_message =
                  ''Hex too short for primary bitmap (need 16 more hex chars / 8 bytes).'',
                err_position = Some 4, err_field = None\<rparr>],
            res_hexSegments =
              [\<lparr>seg_hex = take 4 (normalizeInput inputHex),
                seg_label = ''MTI: '' @ mti_raw (decodeMTI T (take 4 (normalizeInput inputHex))),
                seg_category = ''mti'', seg_startPos = 0, seg_endPos = 4, seg_de = None\<rparr>]\<rparr>"
proof -
  have "normalizeInput inputHex \<noteq> []" using assms(2) by auto
  moreover have "4 + 16 > length (normalizeInput inputHex)" using assms(2,3) by arith
  ultimately show ?thesis using assms(1,2)
    by (simp add: parseISO8583_def Let_def substring_def mtiSegment_def)
qed

text \<open>
  Claim C1. A valid hex input with an MTI and fewer than 16 further characters is to give
  \<open>success = false\<close>, with the MTI populated, both bitmaps absent and at least one error.
  The message \<open>0800\<close> is such an input. The parser returns the MTI, no bitmap and one
  error for it, as claimed, but \<open>success = true\<close>: the return of lines 174-184 writes
  the literal, while the rule that the last return computes the flag with (line 413,
  \<open>overallSuccess\<close>) gives false on the very errors returned, as it does when the
  secondary bitmap is the one cut short (lines 211-212): \<open>08008000000000000000\<close>
  returns one error and \<open>success = false\<close>.
\<close>

theorem primary_bitmap_shortfall_success:
  "list_all isHexChar (normalizeInput ''0800'') \<and> 4 \<le> length (normalizeInput ''0800'')
   \<and> length (normalizeInput ''0800'') - 4 < 16
   \<and> res_mti (parseISO8583 presetSpecs noTables ''0800'') \<noteq> None
   \<and> res_primaryBitmap (parseISO8583 presetSpecs noTables ''0800'') = None
   \<and> res_secondaryBitmap (parseISO8583 presetSpecs noTables ''0800'') = None
   \<and> map err_message (res_errors (parseISO8583 presetSpecs noTables ''0800'')) =
       [''Hex too short for primary bitmap (need 16 more hex chars / 8 bytes).'']
   \<and> res_success (parseISO8583 presetSpecs noTables ''0800'') = True
   \<and> overallSuccess (res_errors (parseISO8583 presetSpecs noTables ''0800'')) = False
   \<and> map err_message (res_errors (parseISO8583 presetSpecs noTables ''08008000000000000000'')) =
       [''Bit 1 indicates secondary bitmap but hex is too short.'']
   \<and> res_success (parseISO8583 presetSpecs noTables ''08008000000000000000'') = False"
  by code_simp

subsection \<open>decodeMTI\<close>

lemma charCode_three [simp]: "charCode (CHR ''3'') = 51"
  by (simp add: charCode_def)

lemma digitValue_digit: "isDigit a \<Longrightarrow> digitValue a = Some (charCode a - 48)"
  by (simp add: digitValue_def)

lemma asciiChar_digit:
  assumes "isDigit a"
  shows "asciiChar [CHR ''3'', a] = a"
proof -
  have v: "digitValue (CHR ''3'') = Some 3"
    by (simp add: digitValue_def isDigit_def)
  have r: "48 \<le> charCode a" "charCode a \<le> 57"
    using assms by (simp_all add: isDigit_def)
  then have "parseInt [CHR ''3'', a] 16 = Some (charCode a)"
    using assms by (simp add: parseInt_def v digitValue_digit)
  moreover have "char_of (charCode a) = a"
    by (simp add: charCode_def)
  ultimately show ?thesis using r by (simp add: asciiChar_def)
qed

lemma substring_from_0: "substring s 0 n = take n s"
  by (simp add: substring_def)

lemma logicalMTI_cases:
  "logicalMTI mtiHex =
     (if 8 \<le> length mtiHex \<and> isFourDigits (hexToAscii (take 8 mtiHex))
      then hexToAscii (take 8 mtiHex) else take 4 mtiHex)"
  by (auto simp: logicalMTI_def Let_def substring_from_0 isFourDigits_def)

lemma logicalMTI_text:
  assumes "isDigit a" "isDigit b" "isDigit c" "isDigit d"
  shows "logicalMTI (CHR ''3'' # a # CHR ''3'' # b # CHR ''3'' # c # CHR ''3'' # d # rest) = [a, b, c, d]"
  using assms by (simp add: logicalMTI_cases asciiChar_digit isFourDigits_def)

text \<open>
  Claim C9. \<open>decodeMTI\<close> has a result on every string (the source has no statement that
  raises, and the model is a total function). A fragment of at least 8 characters whose
  first 8 decode, as bytes, to four decimal digits has that text as its logical MTI; in
  particular \<open>3a3b3c3d\<close> gives \<open>abcd\<close>. Every other fragment has its first four
  characters (all of it when it is shorter), which covers four packed digits used as they
  are and the best-effort fallback; a fragment of at least four characters always has a
  logical MTI of four characters. The codes of version, message class, function and
  origin are the characters of the logical MTI, in this order: when it is \<open>abcd\<close> they
  are \<open>a\<close>, \<open>b\<close>, \<open>c\<close> and \<open>d\<close>, and a position that the logical MTI does not have
  gives no code (\<open>undefined\<close>). Each code is looked up in its own table under the
  one-character key, with the label of the table on a hit and \<open>Unknown\<close> on a miss, and
  the description is \<open>Message Type\<close> followed by the raw MTI when the table of
  descriptions has no entry.
\<close>

theorem decodeMTI_best_effort:
  fixes T :: MTITables and mtiHex :: string
  defines "m \<equiv> decodeMTI T mtiHex"
  defines "raw \<equiv> mti_raw (decodeMTI T mtiHex)"
  defines "key \<equiv> (\<lambda>i. if i < length (mti_raw (decodeMTI T mtiHex))
                        then [mti_raw (decodeMTI T mtiHex) ! i] else ''undefined'')"
  shows "(\<forall>a b c d rest. isDigit a \<and> isDigit b \<and> isDigit c \<and> isDigit d
            \<and> mtiHex = CHR ''3'' # a # CHR ''3'' # b # CHR ''3'' # c # CHR ''3'' # d # rest
            \<longrightarrow> raw = [a, b, c, d])
    \<and> (8 \<le> length mtiHex \<and> isFourDigits (hexToAscii (take 8 mtiHex))
            \<longrightarrow> raw = hexToAscii (take 8 mtiHex))
    \<and> (\<not> (8 \<le> length mtiHex \<and> isFourDigits (hexToAscii (take 8 mtiHex)))
            \<longrightarrow> raw = take 4 mtiHex)
    \<and> (4 \<le> length mtiHex \<longrightarrow> length raw = 4)
    \<and> (\<forall>a b c d. raw = [a, b, c, d] \<longrightarrow>
            cl_code (mti_version m) = Some a \<and> cl_code (mti_messageClass m) = Some b
          \<and> cl_code (mti_function m) = Some c \<and> cl_code (mti_origin m) = Some d
          \<and> cl_label (mti_version m) = orElse (MTI_VERSION T [a]) ''Unknown''
          \<and> cl_label (mti_messageClass m) = orElse (MTI_CLASS T [b]) ''Unknown''
          \<and> cl_label (mti_function m) = orElse (MTI_FUNCTION T [c]) ''Unknown''
          \<and> cl_label (mti_origin m) = orElse (MTI_ORIGIN T [d]) ''Unknown'')
    \<and> cl_code (mti_version m) = (if 0 < length raw then Some (raw ! 0) else None)
    \<and> cl_code (mti_messageClass m) = (if 1 < length raw then Some (raw ! 1) else None)
    \<and> cl_code (mti_function m) = (if 2 < length raw then Some (raw ! 2) else None)
    \<and> cl_code (mti_origin m) = (if 3 < length raw then Some (raw ! 3) else None)
    \<and> (MTI_VERSION T (key 0) = None \<longrightarrow> cl_label (mti_version m) = ''Unknown'')
    \<and> (MTI_CLASS T (key 1) = None \<longrightarrow> cl_label (mti_messageClass m) = ''Unknown'')
    \<and> (MTI_FUNCTION T (key 2) = None \<longrightarrow> cl_label (mti_function m) = ''Unknown'')
    \<and> (MTI_ORIGIN T (key 3) = None \<longrightarrow> cl_label (mti_origin m) = ''Unknown'')
    \<and> (\<forall>l. l \<noteq> [] \<longrightarrow>
          (MTI_VERSION T (key 0) = Some l \<longrightarrow> cl_label (mti_version m) = l)
        \<and> (MTI_CLASS T (key 1) = Some l \<longrightarrow> cl_label (mti_messageClass m) = l)
        \<and> (MTI_FUNCTION T (key 2) = Some l \<longrightarrow> cl_label (mti_function m) = l)
        \<and> (MTI_ORIGIN T (key 3) = Some l \<longrightarrow> cl_label (mti_origin m) = l)
        \<and> (MTI_DESCRIPTIONS T raw = Some l \<longrightarrow> mti_description m = l))
    \<and> (MTI_DESCRIPTIONS T raw = None \<longrightarrow> mti_description m = ''Message Type '' @ raw)"
proof -
  have pat: "\<forall>a b c d rest. isDigit a \<and> isDigit b \<and> isDigit c \<and> isDigit d
            \<and> mtiHex = CHR ''3'' # a # CHR ''3'' # b # CHR ''3'' # c # CHR ''3'' # d # rest
            \<longrightarrow> mti_raw (decodeMTI T mtiHex) = [a, b, c, d]"
    by (auto simp: decodeMTI_def Let_def logicalMTI_text)
  have len: "4 \<le> length mtiHex \<longrightarrow> length (mti_raw (decodeMTI T mtiHex)) = 4"
    by (auto simp: decodeMTI_def Let_def logicalMTI_cases isFourDigits_def)
  have four: "\<forall>a b c d. mti_raw (decodeMTI T mtiHex) = [a, b, c, d] \<longrightarrow>
            cl_code (mti_version (decodeMTI T mtiHex)) = Some a
          \<and> cl_code (mti_messageClass (decodeMTI T mtiHex)) = Some b
          \<and> cl_code (mti_function (decodeMTI T mtiHex)) = Some c
          \<and> cl_code (mti_origin (decodeMTI T mtiHex)) = Some d
          \<and> cl_label (mti_version (decodeMTI T mtiHex)) = orElse (MTI_VERSION T [a]) ''Unknown''
          \<and> cl_label (mti_messageClass (decodeMTI T mtiHex)) = orElse (MTI_CLASS T [b]) ''Unknown''
          \<and> cl_label (mti_function (decodeMTI T mtiHex)) = orElse (MTI_FUNCTION T [c]) ''Unknown''
          \<and> cl_label (mti_origin (decodeMTI T mtiHex)) = orElse (MTI_ORIGIN T [d]) ''Unknown''"
    by (simp add: decodeMTI_def Let_def resolveDigit_def digitAt_def)
  show ?thesis
    unfolding m_def raw_def key_def
    apply (intro conjI)
    subgoal using pat by blast
    subgoal by (simp add: decodeMTI_def Let_def logicalMTI_cases)
    subgoal by (simp add: decodeMTI_def Let_def logicalMTI_cases)
    subgoal using len by blast
    subgoal using four by blast
    apply (simp_all add: decodeMTI_def Let_def resolveDigit_def digitAt_def orElse_def)
    done
qed

theorem decodeMTI_best_effort_witness:
  "8 \<le> length ''30313030AB'' \<and> isFourDigits (hexToAscii (take 8 ''30313030AB''))
   \<and> mti_raw (decodeMTI noTables ''30313030AB'') = ''0100''
   \<and> cl_code (mti_version (decodeMTI noTables ''30313030AB'')) = Some (CHR ''0'')
   \<and> cl_code (mti_messageClass (decodeMTI noTables ''30313030AB'')) = Some (CHR ''1'')
   \<and> cl_code (mti_function (decodeMTI noTables ''30313030AB'')) = Some (CHR ''0'')
   \<and> cl_code (mti_origin (decodeMTI noTables ''30313030AB'')) = Some (CHR ''0'')
   \<and> cl_label (mti_version (decodeMTI noTables ''30313030AB'')) = ''Unknown''
   \<and> cl_label (mti_messageClass (decodeMTI noTables ''30313030AB'')) = ''Unknown''
   \<and> mti_description (decodeMTI noTables ''30313030AB'') = ''Message Type 0100''"
proof -
  have h: "8 \<le> length ''30313030AB'' \<and> isFourDigits (hexToAscii (take 8 ''30313030AB''))"
    by code_simp
  have e: "hexToAscii (take 8 ''30313030AB'') = ''0100''"
    by code_simp
  have t: "MTI_VERSION noTables k = None" "MTI_CLASS noTables k = None"
    "MTI_DESCRIPTIONS noTables k = None" for k
    by (simp_all add: noTables_def)
  show ?thesis
    using h e t decodeMTI_best_effort [where mtiHex = "''30313030AB''" and T = noTables]
    by (simp add: orElse_def)
qed

subsection \<open>Bitmaps\<close>

lemma substring_le: "a \<le> b \<Longrightarrow> substring s a b = take (b - a) (drop a s)"
  by (simp add: substring_def)

lemma hexChar_value:
  assumes "isHexChar h"
  shows "\<exists>v<16. digitValue h = Some v"
proof -
  consider "isDigit h" | "\<not> isDigit h" "65 \<le> charCode h" "charCode h \<le> 70"
    | "\<not> isDigit h" "97 \<le> charCode h" "charCode h \<le> 102"
    using assms unfolding isHexChar_def by blast
  then show ?thesis
  proof cases
    case 1
    then have "digitValue h = Some (charCode h - 48)"
      by (simp add: digitValue_def)
    moreover have "charCode h - 48 < 16"
      using 1 unfolding isDigit_def by arith
    ultimately show ?thesis by blast
  next
    case 2
    then have "digitValue h = Some (charCode h - 55)"
      by (simp add: digitValue_def)
    moreover have "charCode h - 55 < 16"
      using 2 by arith
    ultimately show ?thesis by blast
  next
    case 3
    then have "digitValue h = Some (charCode h - 87)"
      using 3(1) unfolding isDigit_def digitValue_def by simp
    moreover have "charCode h - 87 < 16"
      using 3 by arith
    ultimately show ?thesis by blast
  qed
qed


lemma parseInt_single: "digitValue h = Some v \<Longrightarrow> v < 16 \<Longrightarrow> parseInt [h] 16 = Some v"
  by (simp add: parseInt_def)

lemma nibbleBinary_hex:
  assumes "digitValue h = Some v" "v < 16"
  shows "nibbleBinary h = map (\<lambda>k. if (v div 2 ^ k) mod 2 = 1 then CHR ''1'' else CHR ''0'') [3, 2, 1, 0]"
  using assms by (simp add: nibbleBinary_def parseInt_single)

lemma nibbleBinary_length: "isHexChar h \<Longrightarrow> length (nibbleBinary h) = 4"
  using hexChar_value [of h] by (auto simp: nibbleBinary_hex)

lemma nibbleBinary_nth:
  assumes "digitValue h = Some v" "v < 16" "k < 4"
  shows "(nibbleBinary h ! k = CHR ''1'') = ((v div 2 ^ (3 - k)) mod 2 = 1)"
proof -
  note nb = nibbleBinary_hex [OF assms(1,2)]
  consider "k = 0" | "k = 1" | "k = 2" | "k = 3" using assms(3) by arith
  then show ?thesis
  proof cases
    case 1 then show ?thesis by (simp add: nb)
  next
    case 2 then show ?thesis by (simp add: nb)
  next
    case 3 then show ?thesis by (simp add: nb)
  next
    case 4 then show ?thesis by (simp add: nb)
  qed
qed

lemma concat_nth_uniform:
  assumes "\<forall>x \<in> set xs. length (f x) = n" "0 < n" "i < n * length xs"
  shows "concat (map f xs) ! i = f (xs ! (i div n)) ! (i mod n)"
  using assms
proof (induction xs arbitrary: i)
  case Nil
  then show ?case by simp
next
  case (Cons x xs)
  show ?case
  proof (cases "i < n")
    case True
    then show ?thesis using Cons.prems by (simp add: nth_append)
  next
    case False
    then have ge: "n \<le> i" by simp
    have lt: "i - n < n * length xs" using Cons.prems ge by simp
    have d: "i div n = Suc ((i - n) div n)"
      using ge Cons.prems(2) by (simp add: le_div_geq)
    have m: "i mod n = (i - n) mod n"
      using ge by (simp add: le_mod_geq)
    have "concat (map f (x # xs)) ! i = concat (map f xs) ! (i - n)"
      using Cons.prems False by (simp add: nth_append)
    also have "\<dots> = f (xs ! ((i - n) div n)) ! ((i - n) mod n)"
      using Cons.IH [of "i - n"] Cons.prems lt by simp
    finally show ?thesis by (simp add: d m)
  qed
qed

lemma hexToBinary_length:
  "list_all isHexChar h \<Longrightarrow> length (hexToBinary h) = 4 * length h"
  by (induction h) (simp_all add: hexToBinary_def nibbleBinary_length)

lemma hexToBinary_nth:
  assumes "list_all isHexChar h" "i < 4 * length h"
  shows "(hexToBinary h ! i = CHR ''1'') = bitSet h (Suc i)"
proof -
  have idx: "i div 4 < length h" using assms(2) by simp
  then have "isHexChar (h ! (i div 4))" using assms(1) by (simp add: list_all_length)
  then obtain v where v: "v < 16" "digitValue (h ! (i div 4)) = Some v"
    using hexChar_value by blast
  have "hexToBinary h ! i = nibbleBinary (h ! (i div 4)) ! (i mod 4)"
    unfolding hexToBinary_def
    using assms by (intro concat_nth_uniform) (auto simp: list_all_iff nibbleBinary_length)
  then show ?thesis
    using v idx by (simp add: bitSet_def nibbleBinary_nth)
qed

lemma concat_if_filter:
  "concat (map (\<lambda>i. if P i then [f i] else []) xs) = map f (filter P xs)"
  by (induction xs) simp_all

lemma decodeBitmap_fields:
  assumes "list_all isHexChar h"
  shows "fst (decodeBitmap h) = filter (bitSet h) [1..<Suc (4 * length h)]"
proof -
  let ?b = "hexToBinary h"
  have "fst (decodeBitmap h) = map Suc (filter (\<lambda>i. ?b ! i = CHR ''1'') [0..<length ?b])"
    by (simp add: decodeBitmap_def Let_def concat_if_filter)
  also have "\<dots> = map Suc (filter (\<lambda>i. bitSet h (Suc i)) [0..<4 * length h])"
    using assms by (auto simp: hexToBinary_length hexToBinary_nth intro!: arg_cong [where f = "map Suc"] filter_cong)
  also have "\<dots> = filter (bitSet h) (map Suc [0..<4 * length h])"
    by (simp add: filter_map comp_def)
  also have "map Suc [0..<4 * length h] = [1..<Suc (4 * length h)]"
    by (simp add: map_Suc_upt)
  finally show ?thesis .
qed

lemma decodeBitmap_first:
  assumes "list_all isHexChar h" "h \<noteq> []"
  shows "(take 1 (snd (decodeBitmap h)) = ''1'') = bitSet h 1"
proof -
  have l: "0 < length (hexToBinary h)" using assms by (simp add: hexToBinary_length)
  then have "take 1 (hexToBinary h) = [hexToBinary h ! 0]"
    by (cases "hexToBinary h") simp_all
  then show ?thesis
    using hexToBinary_nth [OF assms(1), of 0] assms(2) by (simp add: decodeBitmap_def Let_def)
qed

lemma filter_range_tail:
  "filter (\<lambda>f. 2 \<le> f \<and> f \<le> 64) (filter B [1..<65]) = filter B [2..<65]"
proof -
  have c: "[1..<65] = 1 # [2..<65]"
    by (simp add: upt_conv_Cons del: upt_rec_numeral)
  have "filter (\<lambda>f. 2 \<le> f \<and> f \<le> 64) (filter B [2..<65]) = filter B [2..<65]"
    by (rule filter_True) (auto simp del: upt_rec_numeral)
  then show ?thesis
    unfolding c by (simp del: upt_rec_numeral)
qed

lemma primary_active:
  assumes "list_all isHexChar h" "length h = 16"
  shows "bm_activeFields (primaryBitmapInfo h p) = filter (bitSet h) [2..<65]"
proof -
  have "Suc (4 * length h) = 65" using assms(2) by simp
  then have "fst (decodeBitmap h) = filter (bitSet h) [1..<65]"
    using decodeBitmap_fields [OF assms(1)] by (simp only:)
  then show ?thesis
    by (simp only: primaryBitmapInfo_def Let_def BitmapInfo.select_convs filter_range_tail)
qed

lemma secondary_active:
  assumes "list_all isHexChar h" "length h = 16"
  shows "bm_activeFields (secondaryBitmapInfo h p) = map (\<lambda>f. f + 64) (filter (bitSet h) [1..<65])"
proof -
  have "Suc (4 * length h) = 65" using assms(2) by simp
  then have "fst (decodeBitmap h) = filter (bitSet h) [1..<65]"
    using decodeBitmap_fields [OF assms(1)] by (simp only:)
  then show ?thesis
    by (simp only: secondaryBitmapInfo_def Let_def BitmapInfo.select_convs)
qed

lemma primary_hasSecondary:
  assumes "list_all isHexChar h" "length h = 16"
  shows "bm_hasSecondary (primaryBitmapInfo h p) = bitSet h 1"
proof -
  have ne: "h \<noteq> []" using assms(2) by auto
  show ?thesis
    using decodeBitmap_first [OF assms(1) ne]
    by (simp only: primaryBitmapInfo_def Let_def BitmapInfo.select_convs)
qed

lemma list_all_substring: "list_all P s \<Longrightarrow> list_all P (substring s a b)"
  by (auto simp: substring_def list_all_iff dest: in_set_takeD in_set_dropD)

lemma length_substring: "a \<le> b \<Longrightarrow> b \<le> length s \<Longrightarrow> length (substring s a b) = b - a"
  by (simp add: substring_def)

text \<open>
  Claim C6. Whenever the primary bitmap is parsed (valid hex with at least 16 characters
  after the MTI), \<open>hasSecondary\<close> holds exactly when bit 1 of the 64-bit vector is 1, and
  the active fields of the primary bitmap are the set positions among 2 to 64, in
  ascending order. When \<open>hasSecondary\<close> holds and at least 16 characters remain after the
  primary bitmap, the secondary bitmap is present and its active fields are
  \<open>bitPosition + 64\<close> for every set position, all between 65 and 128; otherwise it is
  absent.
\<close>

theorem bitmap_bits:
  fixes FIELD_SPECS :: FieldSpecs and T :: MTITables and inputHex :: string
  defines "hex \<equiv> normalizeInput inputHex"
  defines "r \<equiv> parseISO8583 FIELD_SPECS T inputHex"
  assumes valid: "list_all isHexChar hex" and len: "4 + 16 \<le> length hex"
  shows "\<exists>pb. res_primaryBitmap r = Some pb
           \<and> bm_rawHex pb = take 16 (drop 4 hex)
           \<and> (bm_hasSecondary pb \<longleftrightarrow> bitSet (take 16 (drop 4 hex)) 1)
           \<and> bm_activeFields pb = filter (bitSet (take 16 (drop 4 hex))) [2..<65]
           \<and> (bm_hasSecondary pb \<and> 16 \<le> length hex - 20 \<longrightarrow>
                (\<exists>sb. res_secondaryBitmap r = Some sb
                   \<and> bm_rawHex sb = take 16 (drop 20 hex)
                   \<and> bm_activeFields sb =
                       map (\<lambda>bitPosition. bitPosition + 64)
                         (filter (bitSet (take 16 (drop 20 hex))) [1..<65])
                   \<and> (\<forall>f \<in> set (bm_activeFields sb). 65 \<le> f \<and> f \<le> 128)))
           \<and> (\<not> (bm_hasSecondary pb \<and> 16 \<le> length hex - 20) \<longrightarrow> res_secondaryBitmap r = None)"
proof -
  let ?P = "substring hex 4 (4 + 16)"
  let ?S = "substring hex 20 (20 + 16)"
  have P: "?P = take 16 (drop 4 hex)" by (simp add: substring_le)
  have S: "?S = take 16 (drop 20 hex)" by (simp add: substring_le)
  have vP: "list_all isHexChar ?P" using valid by (rule list_all_substring)
  have lP: "length ?P = 16" using len by (simp add: length_substring)
  have ne: "hex \<noteq> []" "\<not> length hex < 4" "\<not> 4 + 16 > length hex" using len by auto
  have pb: "res_primaryBitmap r = Some (primaryBitmapInfo ?P 4)"
    unfolding r_def parseISO8583_def Let_def
    using ne valid by (simp add: hex_def [symmetric] primaryBitmapOf_def)
  have raw: "bm_rawHex (primaryBitmapInfo ?P 4) = ?P"
    by (simp add: primaryBitmapInfo_def Let_def)
  have sec: "res_secondaryBitmap r =
        (if bm_hasSecondary (primaryBitmapInfo ?P 4) \<and> \<not> 20 + 16 > length hex
         then Some (secondaryBitmapInfo ?S 20) else None)"
    unfolding r_def parseISO8583_def Let_def
    using ne valid
    by (simp add: hex_def [symmetric] primaryBitmapOf_def secondaryBitmapOf_def)
  have sraw: "bm_rawHex (secondaryBitmapInfo ?S 20) = ?S"
    by (simp add: secondaryBitmapInfo_def Let_def)
  have rng: "\<forall>f \<in> set (map (\<lambda>b. b + 64) (filter (bitSet ?S) [1..<65])). 65 \<le> f \<and> f \<le> 128"
    by (auto simp del: upt_rec_numeral)
  have long: "16 \<le> length hex - 20 \<longleftrightarrow> \<not> 20 + 16 > length hex" by arith
  {
    assume a: "16 \<le> length hex - 20"
    have vS: "list_all isHexChar ?S" using valid by (rule list_all_substring)
    have lS: "length ?S = 16" using a by (simp add: length_substring)
    note secondary_active [OF vS lS, of 20]
  } note sa = this
  show ?thesis
    using pb raw primary_hasSecondary [OF vP lP, of 4] primary_active [OF vP lP, of 4]
      sec sraw sa rng long
    unfolding P S
    by (auto simp del: upt_rec_numeral)
qed


theorem bitmap_bits_witness:
  "list_all isHexChar (normalizeInput ''0800 8220000000000000 0400000000000000'')
   \<and> 4 + 16 \<le> length (normalizeInput ''0800 8220000000000000 0400000000000000'')
   \<and> (\<exists>pb sb. res_primaryBitmap
          (parseISO8583 presetSpecs noTables ''0800 8220000000000000 0400000000000000'') = Some pb
        \<and> bm_hasSecondary pb \<and> bm_activeFields pb = [7, 11]
        \<and> res_secondaryBitmap
          (parseISO8583 presetSpecs noTables ''0800 8220000000000000 0400000000000000'') = Some sb
        \<and> bm_activeFields sb = [70])"
proof -
  let ?x = "''0800 8220000000000000 0400000000000000''"
  have h: "list_all isHexChar (normalizeInput ?x)" "4 + 16 \<le> length (normalizeInput ?x)"
    by code_simp+
  have e: "bitSet (take 16 (drop 4 (normalizeInput ?x))) 1"
    "filter (bitSet (take 16 (drop 4 (normalizeInput ?x)))) [2..<65] = [7, 11]"
    "map (\<lambda>bitPosition. bitPosition + 64)
       (filter (bitSet (take 16 (drop 20 (normalizeInput ?x)))) [1..<65]) = [70]"
    "16 \<le> length (normalizeInput ?x) - 20"
    by code_simp+
  show ?thesis
    using h e bitmap_bits [OF h, of presetSpecs noTables]
    by (auto simp del: upt_rec_numeral)
qed

subsection \<open>Fixed-length fields\<close>

lemma parseInt_pair:
  assumes "digitValue a = Some va" "va < 16" "digitValue b = Some vb" "vb < 16"
  shows "parseInt [a, b] 16 = Some (16 * va + vb)"
  using assms by (simp add: parseInt_def)

lemma hexToAscii_printable:
  "list_all isHexChar h \<Longrightarrow> even (length h) \<Longrightarrow> hexToAscii h = printableText h"
proof (induction h rule: hexToAscii.induct)
  case 1
  then show ?case by (simp add: printableText_def)
next
  case (2 a)
  then show ?case by simp
next
  case (3 a b rest)
  obtain va vb where v: "va < 16" "digitValue a = Some va" "vb < 16" "digitValue b = Some vb"
    using 3(2) hexChar_value [of a] hexChar_value [of b] by auto
  have "asciiChar [a, b] = (if 32 \<le> 16 * va + vb \<and> 16 * va + vb \<le> 126 then char_of (16 * va + vb) else CHR ''.'')"
    using v by (simp add: asciiChar_def parseInt_pair)
  then show ?case using 3 v by (simp add: printableText_def)
qed

lemma fixedHexLen_alt:
  "fixedHexLen spec =
     (if spec_type spec = ''n'' \<or> spec_type spec = ''x+n''
      then 2 * ((spec_maxLength spec + 1) div 2) else spec_maxLength spec * 2)"
  unfolding fixedHexLen_def by (auto; presburger)

lemma even_fixedHexLen: "even (fixedHexLen spec)"
  by (simp add: fixedHexLen_alt)

lemma parseField_fixed_ok:
  assumes "FIELD_SPECS fieldNum = Some spec" "spec_format spec = ''FIXED''"
    and "cur_pos st < length hex" "cur_pos st + fixedHexLen spec \<le> length hex"
  shows "parseField FIELD_SPECS hex fieldNum st =
     Continue (pushField fieldNum spec (cur_pos st)
        (take (fixedHexLen spec) (drop (cur_pos st) hex))
        (fixedValue spec (take (fixedHexLen spec) (drop (cur_pos st) hex)))
        (fixedHexLen spec div 2) (st\<lparr>cur_pos := cur_pos st + fixedHexLen spec\<rparr>))"
  using assms by (simp add: parseField_def parseFixed_def Let_def substring_le)

text \<open>
  Claim C7. An active field with a specification of format \<open>FIXED\<close>, met with enough
  input left, consumes \<open>maxLength * 2\<close> hex characters when its type is binary or a text
  type, and \<open>maxLength\<close> rounded up to the next even number when its type is numeric
  (\<open>n\<close>, \<open>x+n\<close>). The decoded value is the consumed hex itself for the numeric and the
  binary types and its printable text for the text types. The field is pushed, no error
  is logged, and the loop goes on.
\<close>

theorem fixed_field:
  fixes spec :: FieldSpec and st :: LoopState and hex :: string
  defines "numeric \<equiv> spec_type spec = ''n'' \<or> spec_type spec = ''x+n''"
  defines "n \<equiv> (if numeric then 2 * ((spec_maxLength spec + 1) div 2) else spec_maxLength spec * 2)"
  defines "consumed \<equiv> take n (drop (cur_pos st) hex)"
  assumes spec: "FIELD_SPECS fieldNum = Some spec" and fixed: "spec_format spec = ''FIXED''"
    and valid: "list_all isHexChar hex"
    and inside: "cur_pos st < length hex" and enough: "cur_pos st + n \<le> length hex"
  shows "\<exists>st' pf. parseField FIELD_SPECS hex fieldNum st = Continue st'
           \<and> cur_pos st' = cur_pos st + n
           \<and> cur_errors st' = cur_errors st
           \<and> cur_fields st' = cur_fields st @ [pf]
           \<and> pf_de pf = fieldNum \<and> pf_rawHex pf = consumed \<and> length consumed = n
           \<and> pf_startPos pf = cur_pos st \<and> pf_endPos pf = cur_pos st + n
           \<and> pf_decodedValue pf =
                (if numeric \<or> spec_type spec = ''b'' then consumed else printableText consumed)"
proof -
  have n: "n = fixedHexLen spec" by (simp add: n_def numeric_def fixedHexLen_alt)
  have len: "length consumed = n" using enough by (simp add: consumed_def)
  have "list_all isHexChar consumed"
    using valid by (auto simp: consumed_def list_all_iff dest: in_set_takeD in_set_dropD)
  moreover have "even (length consumed)" using len n even_fixedHexLen by simp
  ultimately have tx: "hexToAscii consumed = printableText consumed"
    by (rule hexToAscii_printable)
  have val: "fixedValue spec consumed =
      (if numeric \<or> spec_type spec = ''b'' then consumed else printableText consumed)"
    by (simp add: fixedValue_def numeric_def tx)
  show ?thesis
    using parseField_fixed_ok [where FIELD_SPECS = FIELD_SPECS and fieldNum = fieldNum, OF spec fixed inside] enough len val
    unfolding n [symmetric] consumed_def [symmetric]
    by (simp add: pushField_def)
qed


theorem fixed_field_witness:
  "presetSpecs 41 = Some (mkSpec ''FIXED'' ''ans'' 8)
   \<and> list_all isHexChar ''010000000000008000005445524D30303031''
   \<and> (\<exists>st' pf. parseField presetSpecs ''010000000000008000005445524D30303031'' 41
                    \<lparr>cur_pos = 20, cur_errors = [], cur_fields = [], cur_segments = []\<rparr>
                  = Continue st'
          \<and> cur_pos st' = 36 \<and> cur_errors st' = [] \<and> cur_fields st' = [pf]
          \<and> pf_rawHex pf = ''5445524D30303031'' \<and> pf_decodedValue pf = ''TERM0001'')"
proof -
  let ?hex = "''010000000000008000005445524D30303031''"
  let ?st = "\<lparr>cur_pos = 20, cur_errors = [], cur_fields = [], cur_segments = []\<rparr>"
  have a: "presetSpecs 41 = Some (mkSpec ''FIXED'' ''ans'' 8)"
    by (simp add: presetSpecs_def)
  have b: "spec_format (mkSpec ''FIXED'' ''ans'' 8) = ''FIXED''"
    by (simp add: mkSpec_def)
  have c: "list_all isHexChar ?hex"
    by code_simp
  have d: "cur_pos ?st < length ?hex"
    by simp
  have e: "take 16 (drop 20 ?hex) = ''5445524D30303031''"
    "printableText ''5445524D30303031'' = ''TERM0001''"
    by code_simp+
  have "\<exists>st' pf. parseField presetSpecs ?hex 41 ?st = Continue st'
          \<and> cur_pos st' = 36 \<and> cur_errors st' = [] \<and> cur_fields st' = [pf]
          \<and> pf_rawHex pf = ''5445524D30303031'' \<and> pf_decodedValue pf = ''TERM0001''"
    using e
      fixed_field [where FIELD_SPECS = presetSpecs and fieldNum = 41 and st = ?st
        and hex = ?hex, OF a b c d]
    by (simp add: mkSpec_def) blast
  then show ?thesis
    using a c by blast
qed

subsection \<open>An invalid length prefix\<close>

lemma digitValue_lt10: "isDigit c \<Longrightarrow> (case digitValue c of Some v \<Rightarrow> v | None \<Rightarrow> 10) = charCode c - 48 \<and> charCode c - 48 < 10"
  unfolding isDigit_def digitValue_def by (simp add: isDigit_def) arith


lemma parseInt_decimal:
  assumes "list_all isDigit s" "s \<noteq> []"
  shows "parseInt s 10 = Some (decimalValue s)"
proof -
  let ?f = "\<lambda>c. case digitValue c of Some v \<Rightarrow> v | None \<Rightarrow> 10"
  have m: "map ?f s = map (\<lambda>c. charCode c - 48) s"
    using assms(1) by (auto simp: list_all_iff digitValue_lt10)
  have "\<forall>d \<in> set (map ?f s). d < 10"
    using assms(1) by (auto simp: list_all_iff digitValue_lt10)
  then have t: "takeWhile (\<lambda>d. d < 10) (map ?f s) = map ?f s"
    by (simp add: takeWhile_eq_all_conv)
  have "foldl (\<lambda>a d. a * 10 + d) 0 (map (\<lambda>c. charCode c - 48) s) = decimalValue s"
    by (simp add: decimalValue_def foldl_map)
  then show ?thesis
    using assms(2) unfolding parseInt_def Let_def t by (simp add: m)
qed



lemma digitChar_digit: "d < 10 \<Longrightarrow> isDigit (digitChar d)"
proof -
  assume "d < 10"
  then have "d = 0 \<or> d = 1 \<or> d = 2 \<or> d = 3 \<or> d = 4 \<or> d = 5 \<or> d = 6
    \<or> d = 7 \<or> d = 8 \<or> d = 9" by arith
  then show ?thesis
    by (elim disjE) (simp_all add: digitChar_def isDigit_def charCode_def)
qed

lemma showNat_digits: "c \<in> set (showNat n) \<Longrightarrow> isDigit c"
proof (induction n rule: showNat.induct)
  case (1 n)
  show ?case
  proof (cases "n < 10")
    case True
    then show ?thesis using 1(2) by (simp add: showNat.simps [of n] digitChar_digit)
  next
    case False
    then show ?thesis using 1 by (auto simp: showNat.simps [of n] digitChar_digit)
  qed
qed
















text \<open>
  A prefix that starts with a decimal digit and goes on with a letter is outside the
  theorem above: \<open>parseInt\<close> reads its leading digits, so \<open>1A\<close> declares the length 1
  and the field is parsed.
\<close>

lemma lenient_prefix:
  "parseInt ''1A'' 10 = Some 1
   \<and> map pf_length (res_fields
        (parseISO8583 presetSpecs noTables ''010040000000000000001A12'')) = [1]
   \<and> res_errors (parseISO8583 presetSpecs noTables ''010040000000000000001A12'') = []"
  by code_simp

subsection \<open>A truncated field\<close>

lemma parseField_fixed_short:
  assumes "FIELD_SPECS fieldNum = Some spec" "spec_format spec = ''FIXED''"
    and "cur_pos st < length hex" "cur_pos st + fixedHexLen spec > length hex"
  shows "parseField FIELD_SPECS hex fieldNum st =
     Continue (pushField fieldNum spec (cur_pos st) (drop (cur_pos st) hex)
        (fixedValue spec (drop (cur_pos st) hex)) (fixedHexLen spec div 2)
        ((logError (''DE '' @ showNat fieldNum @ '': Expected '' @ showNat (fixedHexLen spec)
                       @ '' hex chars but only '' @ showNat (length hex - cur_pos st) @ '' remain.'')
                     (Some (cur_pos st)) (Some fieldNum) st)\<lparr>cur_pos := length hex\<rparr>))"
  using assms by (simp add: parseField_def parseFixed_def Let_def)

lemma prefix_then_rest:
  "p + w \<le> length hex \<Longrightarrow> take w (drop p hex) @ drop (p + w) hex = drop p hex"
  by (metis add.commute append_take_drop_id drop_drop)

lemma parseVar_short:
  assumes "cur_pos st + w \<le> length hex"
    and "parseInt (take w (drop (cur_pos st) hex)) 10 = Some n" "n \<le> spec_maxLength spec"
    and "cur_pos st + w + varHexLen spec n > length hex"
  shows "parseVar w pm im hex fieldNum spec st =
     Continue (pushField fieldNum spec (cur_pos st) (drop (cur_pos st) hex)
        (varValue spec (substring hex (length hex - varHexLen spec n) (length hex))) n
        ((logError (''DE '' @ showNat fieldNum @ '': Expected '' @ showNat (varHexLen spec n)
                      @ '' hex chars for data but only ''
                      @ showNat (length hex - (cur_pos st + w)) @ '' remain.'')
                   (Some (cur_pos st + w)) (Some fieldNum) st)\<lparr>cur_pos := length hex\<rparr>))"
  using assms by (simp add: parseVar_def Let_def substring_le prefix_then_rest)

lemma exhausted_step:
  assumes "cur_pos st \<ge> length hex"
  shows "\<exists>st'. (parseField FIELD_SPECS hex f st = Continue st' \<or> parseField FIELD_SPECS hex f st = Break st')
          \<and> cur_pos st' = cur_pos st \<and> cur_fields st' = cur_fields st
          \<and> cur_segments st' = cur_segments st"
  using assms by (cases "FIELD_SPECS f") (simp_all add: parseField_def logError_def)

lemma exhausted_loop:
  assumes "cur_pos st \<ge> length hex"
  shows "cur_pos (fieldLoop FIELD_SPECS hex fs st) = cur_pos st
       \<and> cur_fields (fieldLoop FIELD_SPECS hex fs st) = cur_fields st
       \<and> cur_segments (fieldLoop FIELD_SPECS hex fs st) = cur_segments st"
  using assms
proof (induction fs arbitrary: st)
  case Nil
  then show ?case by simp
next
  case (Cons f fs)
  obtain st' where s: "parseField FIELD_SPECS hex f st = Continue st' \<or> parseField FIELD_SPECS hex f st = Break st'"
      "cur_pos st' = cur_pos st" "cur_fields st' = cur_fields st" "cur_segments st' = cur_segments st"
    using exhausted_step [OF Cons.prems, of FIELD_SPECS f] by blast
  from s(1) show ?case
  proof
    assume "parseField FIELD_SPECS hex f st = Continue st'"
    then show ?thesis using Cons.IH [of st'] Cons.prems s by simp
  next
    assume "parseField FIELD_SPECS hex f st = Break st'"
    then show ?thesis using s by simp
  qed
qed

text \<open>
  Claim C4, as stated: no field is emitted for a truncated field. In the message below
  DE 3 (six digits, fixed) is active and only two characters are left; the parser
  returns a field for DE 3, holding those two characters.
\<close>

theorem truncated_field_counterexample:
  "presetSpecs 3 = Some (mkSpec ''FIXED'' ''n'' 6)
   \<and> fixedHexLen (mkSpec ''FIXED'' ''n'' 6) = 6
   \<and> map_option bm_activeFields (res_primaryBitmap
        (parseISO8583 presetSpecs noTables ''0100200000000000000012'')) = Some [3]
   \<and> length ''0100200000000000000012'' - 20 = 2
   \<and> map pf_de (res_fields (parseISO8583 presetSpecs noTables ''0100200000000000000012'')) = [3]
   \<and> map pf_rawHex (res_fields (parseISO8583 presetSpecs noTables ''0100200000000000000012'')) = [''12'']"
  by code_simp


text \<open>
  A field cut short with at least one character left: the loop body logs an error, takes
  what is left as the field, puts the cursor at the end and goes on, and the fields that
  follow find no data.
\<close>

lemma partial_field_step:
  fixes st :: LoopState and hex :: string
  assumes spec: "FIELD_SPECS fieldNum = Some spec"
    and inside: "cur_pos st < length hex"
    and trunc: "(spec_format spec = ''FIXED'' \<and> cur_pos st + fixedHexLen spec > length hex)
       \<or> (\<exists>w lenStr. (spec_format spec = ''LLVAR'' \<and> w = 2 \<or> spec_format spec = ''LLLVAR'' \<and> w = 4)
              \<and> cur_pos st + w \<le> length hex \<and> lenStr = take w (drop (cur_pos st) hex)
              \<and> list_all isDigit lenStr \<and> decimalValue lenStr \<le> spec_maxLength spec
              \<and> cur_pos st + w + varHexLen spec (decimalValue lenStr) > length hex)"
  shows "\<exists>e pf seg.
           parseField FIELD_SPECS hex fieldNum st =
             Continue (st\<lparr>cur_pos := length hex, cur_errors := cur_errors st @ [e],
                          cur_fields := cur_fields st @ [pf],
                          cur_segments := cur_segments st @ [seg]\<rparr>)
         \<and> err_field e = Some fieldNum
         \<and> pf_de pf = fieldNum \<and> pf_rawHex pf = drop (cur_pos st) hex
         \<and> pf_startPos pf = cur_pos st \<and> pf_endPos pf = length hex
         \<and> seg_de seg = Some fieldNum \<and> seg_hex seg = drop (cur_pos st) hex
         \<and> seg_startPos seg = cur_pos st \<and> seg_endPos seg = length hex
         \<and> (\<forall>rest. cur_pos (fieldLoop FIELD_SPECS hex (fieldNum # rest) st) = length hex
               \<and> cur_fields (fieldLoop FIELD_SPECS hex (fieldNum # rest) st) = cur_fields st @ [pf]
               \<and> cur_segments (fieldLoop FIELD_SPECS hex (fieldNum # rest) st)
                   = cur_segments st @ [seg])"
proof -
  have "\<exists>msg p val len. parseField FIELD_SPECS hex fieldNum st =
          Continue (pushField fieldNum spec (cur_pos st) (drop (cur_pos st) hex) val len
             ((logError msg p (Some fieldNum) st)\<lparr>cur_pos := length hex\<rparr>))"
    using trunc
  proof
    assume "spec_format spec = ''FIXED'' \<and> cur_pos st + fixedHexLen spec > length hex"
    then show ?thesis
      using parseField_fixed_short [where FIELD_SPECS = FIELD_SPECS and fieldNum = fieldNum,
          OF spec _ inside] by blast
  next
    assume "\<exists>w lenStr. (spec_format spec = ''LLVAR'' \<and> w = 2 \<or> spec_format spec = ''LLLVAR'' \<and> w = 4)
              \<and> cur_pos st + w \<le> length hex \<and> lenStr = take w (drop (cur_pos st) hex)
              \<and> list_all isDigit lenStr \<and> decimalValue lenStr \<le> spec_maxLength spec
              \<and> cur_pos st + w + varHexLen spec (decimalValue lenStr) > length hex"
    then obtain w lenStr where v:
      "spec_format spec = ''LLVAR'' \<and> w = 2 \<or> spec_format spec = ''LLLVAR'' \<and> w = 4"
      "cur_pos st + w \<le> length hex" "lenStr = take w (drop (cur_pos st) hex)"
      "list_all isDigit lenStr" "decimalValue lenStr \<le> spec_maxLength spec"
      "cur_pos st + w + varHexLen spec (decimalValue lenStr) > length hex"
      by blast
    have ne: "lenStr \<noteq> []" using v(1,2,3) by auto
    have p: "parseInt (take w (drop (cur_pos st) hex)) 10 = Some (decimalValue lenStr)"
      using parseInt_decimal [OF v(4) ne] v(3) by simp
    note pv = parseVar_short [OF v(2) p v(5) v(6)]
    from v(1) show ?thesis
    proof
      assume a: "spec_format spec = ''LLVAR'' \<and> w = 2"
      have "parseField FIELD_SPECS hex fieldNum st =
              parseVar w '': Not enough data for LLVAR length prefix.''
                (\<lambda>lenStr. '': Invalid LLVAR length '' @ lenStr @ '' (max ''
                           @ showNat (spec_maxLength spec) @ '').'')
                hex fieldNum spec st"
        using a spec inside by (simp add: parseField_def)
      then show ?thesis unfolding pv by blast
    next
      assume a: "spec_format spec = ''LLLVAR'' \<and> w = 4"
      have "parseField FIELD_SPECS hex fieldNum st =
              parseVar w '': Not enough data for LLLVAR length prefix (need 4 hex chars).''
                (\<lambda>lenStr. '': Invalid LLLVAR length '' @ lenStr @ ''.'')
                hex fieldNum spec st"
        using a spec inside by (simp add: parseField_def)
      then show ?thesis unfolding pv by blast
    qed
  qed
  then obtain msg p val len where step:
    "parseField FIELD_SPECS hex fieldNum st =
          Continue (pushField fieldNum spec (cur_pos st) (drop (cur_pos st) hex) val len
             ((logError msg p (Some fieldNum) st)\<lparr>cur_pos := length hex\<rparr>))"
    by blast
  define e where "e = \<lparr>err_message = msg, err_position = p, err_field = Some fieldNum\<rparr>"
  define pf where "pf = \<lparr>pf_de = fieldNum, pf_name = spec_name spec, pf_rawHex = drop (cur_pos st) hex,
             pf_decodedValue = val, pf_length = len,
             pf_format = spec_format spec, pf_type = spec_type spec,
             pf_category = spec_category spec, pf_startPos = cur_pos st,
             pf_endPos = length hex, pf_description = spec_description spec\<rparr>"
  define seg where "seg = \<lparr>seg_hex = drop (cur_pos st) hex,
             seg_label = ''DE '' @ showNat fieldNum @ '': '' @ spec_name spec,
             seg_category = spec_category spec, seg_startPos = cur_pos st,
             seg_endPos = length hex, seg_de = Some fieldNum\<rparr>"
  define st' where "st' = st\<lparr>cur_pos := length hex, cur_errors := cur_errors st @ [e],
                          cur_fields := cur_fields st @ [pf],
                          cur_segments := cur_segments st @ [seg]\<rparr>"
  have step': "parseField FIELD_SPECS hex fieldNum st = Continue st'"
    unfolding step by (simp add: pushField_def logError_def st'_def e_def pf_def seg_def)
  have ex: "cur_pos st' \<ge> length hex" by (simp add: st'_def)
  have after: "cur_pos (fieldLoop FIELD_SPECS hex (fieldNum # rest) st) = length hex
               \<and> cur_fields (fieldLoop FIELD_SPECS hex (fieldNum # rest) st) = cur_fields st @ [pf]
               \<and> cur_segments (fieldLoop FIELD_SPECS hex (fieldNum # rest) st)
                   = cur_segments st @ [seg]" for rest
    using exhausted_loop [OF ex, of FIELD_SPECS rest] by (simp add: step' st'_def)
  have props: "err_field e = Some fieldNum"
    "pf_de pf = fieldNum" "pf_rawHex pf = drop (cur_pos st) hex"
    "pf_startPos pf = cur_pos st" "pf_endPos pf = length hex"
    "seg_de seg = Some fieldNum" "seg_hex seg = drop (cur_pos st) hex"
    "seg_startPos seg = cur_pos st" "seg_endPos seg = length hex"
    by (simp_all add: e_def pf_def seg_def)
  show ?thesis
    using step' props after unfolding st'_def by blast
qed

text \<open>A field with a specification and no character left: the loop stops, with an error
  and nothing else.\<close>

lemma no_data_step:
  assumes "FIELD_SPECS fieldNum = Some spec" "length hex \<le> cur_pos st"
  shows "parseField FIELD_SPECS hex fieldNum st =
           Break (st\<lparr>cur_errors := cur_errors st @
                    [\<lparr>err_message = ''Ran out of data at DE '' @ showNat fieldNum @ ''.'',
                      err_position = Some (cur_pos st), err_field = Some fieldNum\<rparr>]\<rparr>)"
  using assms by (simp add: parseField_def logError_def)

text \<open>
  Claim C4, amended. When the characters left cannot hold the required length of an
  active FIXED field, or the data that the valid prefix of an LLVAR or LLLVAR field
  declares, the loop body logs an error for the field, and no later active field is
  parsed. When no character is left at the field, the loop stops at once with the error
  \<open>Ran out of data\<close>: the cursor stays where it is, and no field and no segment is
  emitted for the field, as the claim has it. When at least one character is left, the
  loop body consumes what is left and puts the cursor at the end of the input; it emits
  a field and a segment for the truncated field, both holding what was left, and does
  not leave the loop at once; whatever fields follow, the loop ends with the cursor at
  the end and with these fields and segments.
\<close>

theorem truncated_field:
  fixes st :: LoopState and hex :: string
  assumes spec: "FIELD_SPECS fieldNum = Some spec"
    and trunc: "(spec_format spec = ''FIXED'' \<and> cur_pos st + fixedHexLen spec > length hex)
       \<or> (\<exists>w lenStr. (spec_format spec = ''LLVAR'' \<and> w = 2 \<or> spec_format spec = ''LLLVAR'' \<and> w = 4)
              \<and> cur_pos st + w \<le> length hex \<and> lenStr = take w (drop (cur_pos st) hex)
              \<and> list_all isDigit lenStr \<and> decimalValue lenStr \<le> spec_maxLength spec
              \<and> cur_pos st + w + varHexLen spec (decimalValue lenStr) > length hex)"
  shows "(length hex \<le> cur_pos st \<longrightarrow>
           (\<exists>e. parseField FIELD_SPECS hex fieldNum st =
                   Break (st\<lparr>cur_errors := cur_errors st @ [e]\<rparr>)
               \<and> err_message e = ''Ran out of data at DE '' @ showNat fieldNum @ ''.''
               \<and> err_field e = Some fieldNum
               \<and> (\<forall>rest. fieldLoop FIELD_SPECS hex (fieldNum # rest) st =
                             st\<lparr>cur_errors := cur_errors st @ [e]\<rparr>)))
       \<and> (cur_pos st < length hex \<longrightarrow>
           (\<exists>e pf seg.
               parseField FIELD_SPECS hex fieldNum st =
                 Continue (st\<lparr>cur_pos := length hex, cur_errors := cur_errors st @ [e],
                              cur_fields := cur_fields st @ [pf],
                              cur_segments := cur_segments st @ [seg]\<rparr>)
             \<and> err_field e = Some fieldNum
             \<and> pf_de pf = fieldNum \<and> pf_rawHex pf = drop (cur_pos st) hex
             \<and> pf_startPos pf = cur_pos st \<and> pf_endPos pf = length hex
             \<and> seg_de seg = Some fieldNum \<and> seg_hex seg = drop (cur_pos st) hex
             \<and> seg_startPos seg = cur_pos st \<and> seg_endPos seg = length hex
             \<and> (\<forall>rest. cur_pos (fieldLoop FIELD_SPECS hex (fieldNum # rest) st) = length hex
                   \<and> cur_fields (fieldLoop FIELD_SPECS hex (fieldNum # rest) st)
                       = cur_fields st @ [pf]
                   \<and> cur_segments (fieldLoop FIELD_SPECS hex (fieldNum # rest) st)
                       = cur_segments st @ [seg])))"
proof (intro conjI impI)
  assume none: "length hex \<le> cur_pos st"
  define e where "e = \<lparr>err_message = ''Ran out of data at DE '' @ showNat fieldNum @ ''.'',
                        err_position = Some (cur_pos st), err_field = Some fieldNum\<rparr>"
  have step: "parseField FIELD_SPECS hex fieldNum st =
                Break (st\<lparr>cur_errors := cur_errors st @ [e]\<rparr>)"
    using no_data_step [where FIELD_SPECS = FIELD_SPECS and fieldNum = fieldNum, OF spec none]
    by (simp add: e_def)
  have "fieldLoop FIELD_SPECS hex (fieldNum # rest) st = st\<lparr>cur_errors := cur_errors st @ [e]\<rparr>"
    for rest
    by (simp add: step)
  moreover have "err_message e = ''Ran out of data at DE '' @ showNat fieldNum @ ''.''"
    "err_field e = Some fieldNum"
    by (simp_all add: e_def)
  ultimately show "\<exists>e. parseField FIELD_SPECS hex fieldNum st =
                   Break (st\<lparr>cur_errors := cur_errors st @ [e]\<rparr>)
               \<and> err_message e = ''Ran out of data at DE '' @ showNat fieldNum @ ''.''
               \<and> err_field e = Some fieldNum
               \<and> (\<forall>rest. fieldLoop FIELD_SPECS hex (fieldNum # rest) st =
                             st\<lparr>cur_errors := cur_errors st @ [e]\<rparr>)"
    using step by blast
next
  assume inside: "cur_pos st < length hex"
  show "\<exists>e pf seg.
               parseField FIELD_SPECS hex fieldNum st =
                 Continue (st\<lparr>cur_pos := length hex, cur_errors := cur_errors st @ [e],
                              cur_fields := cur_fields st @ [pf],
                              cur_segments := cur_segments st @ [seg]\<rparr>)
             \<and> err_field e = Some fieldNum
             \<and> pf_de pf = fieldNum \<and> pf_rawHex pf = drop (cur_pos st) hex
             \<and> pf_startPos pf = cur_pos st \<and> pf_endPos pf = length hex
             \<and> seg_de seg = Some fieldNum \<and> seg_hex seg = drop (cur_pos st) hex
             \<and> seg_startPos seg = cur_pos st \<and> seg_endPos seg = length hex
             \<and> (\<forall>rest. cur_pos (fieldLoop FIELD_SPECS hex (fieldNum # rest) st) = length hex
                   \<and> cur_fields (fieldLoop FIELD_SPECS hex (fieldNum # rest) st)
                       = cur_fields st @ [pf]
                   \<and> cur_segments (fieldLoop FIELD_SPECS hex (fieldNum # rest) st)
                       = cur_segments st @ [seg])"
    using partial_field_step [where FIELD_SPECS = FIELD_SPECS and fieldNum = fieldNum
        and st = st and hex = hex, OF spec inside trunc] .
qed

theorem truncated_field_witness:
  "presetSpecs 3 = Some (mkSpec ''FIXED'' ''n'' 6)
   \<and> (\<exists>e pf seg. parseField presetSpecs ''0100200000000000000012'' 3
               \<lparr>cur_pos = 20, cur_errors = [], cur_fields = [], cur_segments = []\<rparr>
             = Continue \<lparr>cur_pos = 22, cur_errors = [e], cur_fields = [pf], cur_segments = [seg]\<rparr>
          \<and> pf_de pf = 3 \<and> pf_rawHex pf = ''12''
          \<and> cur_fields (fieldLoop presetSpecs ''0100200000000000000012'' [3, 7, 11]
               \<lparr>cur_pos = 20, cur_errors = [], cur_fields = [], cur_segments = []\<rparr>) = [pf])
   \<and> (\<exists>e. fieldLoop presetSpecs ''01002000000000000000'' [3, 7, 11]
               \<lparr>cur_pos = 20, cur_errors = [], cur_fields = [], cur_segments = []\<rparr>
             = \<lparr>cur_pos = 20, cur_errors = [e], cur_fields = [], cur_segments = []\<rparr>
          \<and> err_message e = ''Ran out of data at DE 3.'')"
proof -
  let ?hex = "''0100200000000000000012''"
  let ?none = "''01002000000000000000''"
  let ?st = "\<lparr>cur_pos = 20, cur_errors = [], cur_fields = [], cur_segments = []\<rparr>"
  have a: "presetSpecs 3 = Some (mkSpec ''FIXED'' ''n'' 6)"
    by (simp add: presetSpecs_def)
  have c: "spec_format (mkSpec ''FIXED'' ''n'' 6) = ''FIXED''
           \<and> cur_pos ?st + fixedHexLen (mkSpec ''FIXED'' ''n'' 6) > length ?hex"
    by (simp add: mkSpec_def fixedHexLen_def)
  have c0: "spec_format (mkSpec ''FIXED'' ''n'' 6) = ''FIXED''
           \<and> cur_pos ?st + fixedHexLen (mkSpec ''FIXED'' ''n'' 6) > length ?none"
    by (simp add: mkSpec_def fixedHexLen_def)
  have s: "showNat 3 = ''3''"
    by code_simp
  have i: "cur_pos ?st < length ?hex"
    by simp
  obtain e pf seg where o:
    "parseField presetSpecs ?hex 3 ?st =
       Continue (?st\<lparr>cur_pos := length ?hex, cur_errors := cur_errors ?st @ [e],
                     cur_fields := cur_fields ?st @ [pf],
                     cur_segments := cur_segments ?st @ [seg]\<rparr>)"
    "pf_de pf = 3" "pf_rawHex pf = drop (cur_pos ?st) ?hex"
    "\<forall>rest. cur_pos (fieldLoop presetSpecs ?hex (3 # rest) ?st) = length ?hex
          \<and> cur_fields (fieldLoop presetSpecs ?hex (3 # rest) ?st) = cur_fields ?st @ [pf]
          \<and> cur_segments (fieldLoop presetSpecs ?hex (3 # rest) ?st) = cur_segments ?st @ [seg]"
    using truncated_field [where FIELD_SPECS = presetSpecs and fieldNum = 3 and st = ?st
        and hex = ?hex, OF a disjI1, OF c] i
    by blast
  have "parseField presetSpecs ?hex 3 ?st
          = Continue \<lparr>cur_pos = 22, cur_errors = [e], cur_fields = [pf], cur_segments = [seg]\<rparr>"
    using o(1) by simp
  moreover have "pf_rawHex pf = ''12''"
    using o(3) by simp
  moreover have "cur_fields (fieldLoop presetSpecs ?hex [3, 7, 11] ?st) = [pf]"
    using o(4) by (simp del: fieldLoop.simps)
  ultimately have one: "\<exists>e pf seg. parseField presetSpecs ?hex 3 ?st
             = Continue \<lparr>cur_pos = 22, cur_errors = [e], cur_fields = [pf], cur_segments = [seg]\<rparr>
          \<and> pf_de pf = 3 \<and> pf_rawHex pf = ''12''
          \<and> cur_fields (fieldLoop presetSpecs ?hex [3, 7, 11] ?st) = [pf]"
    using o(2) by blast
  have n: "length ?none \<le> cur_pos ?st"
    by simp
  obtain e where e:
    "\<forall>rest. fieldLoop presetSpecs ?none (3 # rest) ?st = ?st\<lparr>cur_errors := cur_errors ?st @ [e]\<rparr>"
    "err_message e = ''Ran out of data at DE '' @ showNat 3 @ ''.''"
    using truncated_field [where FIELD_SPECS = presetSpecs and fieldNum = 3 and st = ?st
        and hex = ?none, OF a disjI1, OF c0] n
    by blast
  have "fieldLoop presetSpecs ?none [3, 7, 11] ?st
          = \<lparr>cur_pos = 20, cur_errors = [e], cur_fields = [], cur_segments = []\<rparr>"
    using e(1) by (simp del: fieldLoop.simps)
  moreover have "err_message e = ''Ran out of data at DE 3.''"
    using e(2) by (simp add: s)
  ultimately have two: "\<exists>e. fieldLoop presetSpecs ?none [3, 7, 11] ?st
             = \<lparr>cur_pos = 20, cur_errors = [e], cur_fields = [], cur_segments = []\<rparr>
          \<and> err_message e = ''Ran out of data at DE 3.''"
    by blast
  show ?thesis
    using a one two by blast
qed

subsection \<open>Every segment matches its range\<close>

lemma shortfall_segments:
  assumes "list_all isHexChar (normalizeInput inputHex)"
    and "4 \<le> length (normalizeInput inputHex)"
    and "length (normalizeInput inputHex) - 4 < 16"
  shows "res_hexSegments (parseISO8583 FIELD_SPECS T inputHex) =
              [\<lparr>seg_hex = take 4 (normalizeInput inputHex),
                seg_label = ''MTI: '' @ mti_raw (decodeMTI T (take 4 (normalizeInput inputHex))),
                seg_category = ''mti'', seg_startPos = 0, seg_endPos = 4, seg_de = None\<rparr>]"
proof -
  have "normalizeInput inputHex \<noteq> []" using assms(2) by auto
  moreover have "4 + 16 > length (normalizeInput inputHex)" using assms(2,3) by arith
  ultimately show ?thesis using assms(1,2)
    by (simp add: parseISO8583_def Let_def substring_def mtiSegment_def)
qed

lemma loopInv_logError [simp]: "loopInv hex (logError msg p f st) = loopInv hex st"
  by (simp add: loopInv_def logError_def)

lemma loopInv_pushField:
  assumes "list_all (segmentInRange hex) (cur_segments st)" "start \<le> cur_pos st" "cur_pos st \<le> length hex"
    and "fieldHex = take (cur_pos st - start) (drop start hex)"
  shows "loopInv hex (pushField fieldNum spec start fieldHex val len st)"
  using assms by (simp add: loopInv_def pushField_def segmentInRange_def)

lemma parseFixed_inv:
  assumes "loopInv hex st" "parseFixed hex fieldNum spec st = Continue st' \<or> parseFixed hex fieldNum spec st = Break st'"
  shows "loopInv hex st'"
proof (cases "cur_pos st + fixedHexLen spec > length hex")
  case True
  have "loopInv hex (pushField fieldNum spec (cur_pos st) (drop (cur_pos st) hex) v l
          ((logError m p f st)\<lparr>cur_pos := length hex\<rparr>))" for v l m p f
    using assms(1) by (intro loopInv_pushField) (simp_all add: loopInv_def logError_def)
  then show ?thesis using assms(2) True by (auto simp: parseFixed_def Let_def)
next
  case False
  have "loopInv hex (pushField fieldNum spec (cur_pos st)
          (take (fixedHexLen spec) (drop (cur_pos st) hex)) v l
          (st\<lparr>cur_pos := cur_pos st + fixedHexLen spec\<rparr>))" for v l
    using assms(1) False by (intro loopInv_pushField) (simp_all add: loopInv_def)
  then show ?thesis using assms(2) False by (auto simp: parseFixed_def Let_def substring_le)
qed

lemma take_prefix_data:
  "take w (drop p hex) @ take n (drop (p + w) hex) = take (w + n) (drop p hex)"
  unfolding take_add by (simp add: add.commute)

lemma parseVar_inv:
  assumes "loopInv hex st" "parseVar w pm im hex fieldNum spec st = Continue st' \<or> parseVar w pm im hex fieldNum spec st = Break st'"
  shows "loopInv hex st'"
proof (cases "cur_pos st + w > length hex")
  case True
  then show ?thesis using assms by (auto simp: parseVar_def Let_def)
next
  case inside: False
  let ?lenStr = "take w (drop (cur_pos st) hex)"
  have skip: "loopInv hex (logError m p f (st\<lparr>cur_pos := cur_pos st + w\<rparr>))" for m p f
    using assms(1) inside by (simp add: loopInv_def logError_def)
  show ?thesis
  proof (cases "parseInt ?lenStr 10")
    case None
    then show ?thesis using assms(2) inside skip by (auto simp: parseVar_def Let_def substring_le)
  next
    case (Some n)
    show ?thesis
    proof (cases "n > spec_maxLength spec")
      case True
      then show ?thesis using assms(2) inside skip Some by (auto simp: parseVar_def Let_def substring_le)
    next
      case ok: False
      show ?thesis
      proof (cases "cur_pos st + w + varHexLen spec n > length hex")
        case True
        have "loopInv hex (pushField fieldNum spec (cur_pos st) (drop (cur_pos st) hex) v l
          ((logError m p f st)\<lparr>cur_pos := length hex\<rparr>))" for v l m p f
          using assms(1) by (intro loopInv_pushField) (simp_all add: loopInv_def logError_def)
        then show ?thesis
          using assms(2) inside Some ok True
          by (auto simp: parseVar_def Let_def substring_le prefix_then_rest)
      next
        case False
        have "loopInv hex (pushField fieldNum spec (cur_pos st)
          (take (w + varHexLen spec n) (drop (cur_pos st) hex)) v l
          (st\<lparr>cur_pos := cur_pos st + w + varHexLen spec n\<rparr>))" for v l
          using assms(1) False by (intro loopInv_pushField) (simp_all add: loopInv_def)
        then show ?thesis
          using assms(2) inside Some ok False
          by (auto simp: parseVar_def Let_def substring_le take_prefix_data)
      qed
    qed
  qed
qed

lemma parseField_inv:
  assumes "loopInv hex st" "parseField FIELD_SPECS hex fieldNum st = Continue st' \<or> parseField FIELD_SPECS hex fieldNum st = Break st'"
  shows "loopInv hex st'"
proof (cases "FIELD_SPECS fieldNum")
  case None
  then show ?thesis using assms by (auto simp: parseField_def)
next
  case (Some spec)
  have other: "loopInv hex (pushField fieldNum spec (cur_pos st) [] [] 0 st)"
    using assms(1) by (intro loopInv_pushField) (simp_all add: loopInv_def)
  show ?thesis
    using assms Some other parseFixed_inv [of hex st fieldNum spec st']
      parseVar_inv [of hex st _ _ _ fieldNum spec st']
    by (auto simp: parseField_def split: if_splits)
qed

lemma fieldLoop_inv: "loopInv hex st \<Longrightarrow> loopInv hex (fieldLoop FIELD_SPECS hex fs st)"
proof (induction fs arbitrary: st)
  case Nil
  then show ?case by simp
next
  case (Cons f fs)
  show ?case
  proof (cases "parseField FIELD_SPECS hex f st")
    case (Continue st')
    then show ?thesis using Cons parseField_inv [of hex st FIELD_SPECS f st'] by simp
  next
    case (Break st')
    then show ?thesis using Cons parseField_inv [of hex st FIELD_SPECS f st'] by simp
  qed
qed

lemma trailingData_inv: "loopInv hex st \<Longrightarrow> loopInv hex (trailingData hex st)"
  by (simp add: trailingData_def loopInv_def logError_def Let_def segmentInRange_def)

lemma parse_long:
  assumes "list_all isHexChar (normalizeInput inputHex)" "20 \<le> length (normalizeInput inputHex)"
  shows "parseISO8583 FIELD_SPECS T inputHex =
     (let hex = normalizeInput inputHex;
          st = trailingData hex (fieldLoop FIELD_SPECS hex (allActiveFields hex) (loopEntry T hex))
      in \<lparr>res_success = overallSuccess (cur_errors st),
          res_mti = Some (decodeMTI T (substring hex 0 4)),
          res_primaryBitmap = Some (primaryBitmapOf hex),
          res_secondaryBitmap = secondaryBitmapOf hex,
          res_fields = cur_fields st, res_errors = cur_errors st,
          res_hexSegments = cur_segments st\<rparr>)"
proof -
  have "normalizeInput inputHex \<noteq> []" "\<not> length (normalizeInput inputHex) < 4"
    "\<not> 4 + 16 > length (normalizeInput inputHex)"
    using assms(2) by auto
  then show ?thesis
    using assms(1) by (simp add: parseISO8583_def Let_def)
qed

lemma loopEntry_inv:
  assumes "20 \<le> length hex"
  shows "loopInv hex (loopEntry T hex)"
proof -
  have m: "segmentInRange hex (mtiSegment mm (substring hex 0 4))" for mm
    using assms by (simp add: segmentInRange_def mtiSegment_def substring_le)
  have b1: "segmentInRange hex (bitmapSegment (substring hex 4 (4 + 16)) l 4)" for l
    using assms by (simp add: segmentInRange_def bitmapSegment_def substring_le)
  have b2: "\<not> 20 + 16 > length hex \<Longrightarrow>
     segmentInRange hex (bitmapSegment (substring hex 20 (20 + 16)) l 20)" for l
    by (simp add: segmentInRange_def bitmapSegment_def substring_le)
  show ?thesis
    using assms m b1 b2 by (simp add: loopEntry_def Let_def loopInv_def logError_def)
qed

text \<open>
  Claim C10. For every input that passes the two fatal checks, every segment of the
  result has \<open>0 \<le> startPos \<le> endPos \<le> length hex\<close>, and its \<open>hex\<close> is the
  substring of the normalized input from \<open>startPos\<close> to \<open>endPos\<close>; this includes the
  segments of truncated fields and of trailing data.
\<close>

theorem segments_in_range:
  fixes FIELD_SPECS :: FieldSpecs and T :: MTITables and inputHex :: string
  defines "hex \<equiv> normalizeInput inputHex"
  assumes valid: "list_all isHexChar hex" and len: "4 \<le> length hex"
  shows "\<forall>seg \<in> set (res_hexSegments (parseISO8583 FIELD_SPECS T inputHex)).
           seg_startPos seg \<le> seg_endPos seg \<and> seg_endPos seg \<le> length hex
           \<and> seg_hex seg = take (seg_endPos seg - seg_startPos seg) (drop (seg_startPos seg) hex)"
proof -
  have "list_all (segmentInRange hex) (res_hexSegments (parseISO8583 FIELD_SPECS T inputHex))"
  proof (cases "20 \<le> length hex")
    case False
    then have "length hex - 4 < 16" by simp
    then show ?thesis
      using shortfall_segments [OF valid [unfolded hex_def] len [unfolded hex_def], of FIELD_SPECS T] len
      by (simp add: hex_def segmentInRange_def)
  next
    case True
    then show ?thesis
      using trailingData_inv [OF fieldLoop_inv, OF loopEntry_inv, OF True, of FIELD_SPECS "allActiveFields hex" T]
        parse_long [OF valid [unfolded hex_def] True [unfolded hex_def], of FIELD_SPECS T]
      by (simp add: loopInv_def Let_def hex_def)
  qed
  then show ?thesis
    by (simp add: list_all_iff segmentInRange_def)
qed


theorem segments_in_range_witness:
  "list_all isHexChar (normalizeInput ''0100 6000000000000000 99 1234'')
   \<and> 4 \<le> length (normalizeInput ''0100 6000000000000000 99 1234'')
   \<and> length (res_hexSegments (parseISO8583 presetSpecs noTables ''0100 6000000000000000 99 1234'')) = 3
   \<and> list_all
        (\<lambda>seg. seg_startPos seg \<le> seg_endPos seg \<and> seg_endPos seg \<le> 26
           \<and> seg_hex seg = take (seg_endPos seg - seg_startPos seg)
                (drop (seg_startPos seg) ''01006000000000000000991234''))
        (res_hexSegments (parseISO8583 presetSpecs noTables ''0100 6000000000000000 99 1234''))"
proof -
  let ?x = "''0100 6000000000000000 99 1234''"
  have h: "list_all isHexChar (normalizeInput ?x)" "4 \<le> length (normalizeInput ?x)"
    by code_simp+
  have n: "normalizeInput ?x = ''01006000000000000000991234''"
    by code_simp
  have l: "length (res_hexSegments (parseISO8583 presetSpecs noTables ?x)) = 3"
    by code_simp
  have m: "length ''01006000000000000000991234'' = 26"
    by simp
  show ?thesis
    using h l segments_in_range [OF h, of presetSpecs noTables, unfolded n m]
    unfolding list_all_iff by blast
qed

subsection \<open>Segments as a tiling of the input\<close>

text \<open>
  Claim C5 asks that the segments, joined in order, give a prefix of the normalized
  input with no gap. In the message below DE 2 (LLVAR, at most 19 digits) is the only
  active field. Its prefix \<open>99\<close> is above the maximum, so the two characters are
  skipped without a segment; the loop completes, and the two characters after them
  become the segment of unparsed data. The segments join to a string that leaves the
  \<open>99\<close> out and is no prefix of the input.
\<close>

theorem segment_tiling_gap:
  "normalizeInput ''0100400000000000000099AB'' = ''0100400000000000000099AB''
   \<and> list_all isHexChar ''0100400000000000000099AB''
   \<and> map seg_hex (res_hexSegments
        (parseISO8583 presetSpecs noTables ''0100400000000000000099AB''))
       = [''0100'', ''4000000000000000'', ''AB'']
   \<and> map (\<lambda>seg. (seg_startPos seg, seg_endPos seg)) (res_hexSegments
        (parseISO8583 presetSpecs noTables ''0100400000000000000099AB''))
       = [(0, 4), (4, 20), (22, 24)]
   \<and> take (length (concat (map seg_hex (res_hexSegments
          (parseISO8583 presetSpecs noTables ''0100400000000000000099AB'')))))
        ''0100400000000000000099AB''
       \<noteq> concat (map seg_hex (res_hexSegments
          (parseISO8583 presetSpecs noTables ''0100400000000000000099AB'')))"
  by code_simp

subsection \<open>Building and decoding\<close>

lemma upperHex_hex: "isUpperHex c \<Longrightarrow> isHexChar c"
  by (auto simp: isUpperHex_def isHexChar_def)

lemma list_upperHex_hex: "list_all isUpperHex s \<Longrightarrow> list_all isHexChar s"
  by (auto simp: list_all_iff upperHex_hex)

lemma upperHex_keep:
  assumes "isUpperHex c"
  shows "\<not> isWhitespace c \<and> upperChar c = [c]"
proof -
  have "48 \<le> charCode c \<and> charCode c \<le> 70"
    using assms unfolding isUpperHex_def isDigit_def by arith
  then show ?thesis
    unfolding isWhitespace_def upperChar_def by simp
qed

lemma normalizeInput_upperHex: "list_all isUpperHex s \<Longrightarrow> normalizeInput s = s"
  by (induction s) (simp_all add: normalizeInput_def toUpperCase_def upperHex_keep)

lemma digitChar_props:
  assumes "v < 16"
  shows "isUpperHex (digitChar v) \<and> digitValue (digitChar v) = Some v"
proof -
  have "v = 0 \<or> v = 1 \<or> v = 2 \<or> v = 3 \<or> v = 4 \<or> v = 5 \<or> v = 6 \<or> v = 7 \<or> v = 8
      \<or> v = 9 \<or> v = 10 \<or> v = 11 \<or> v = 12 \<or> v = 13 \<or> v = 14 \<or> v = 15"
    using assms by arith
  then show ?thesis
    by (elim disjE)
      (simp_all add: digitChar_def isUpperHex_def digitValue_def isDigit_def charCode_def)
qed

lemma byteHex_upper: "b < 256 \<Longrightarrow> list_all isUpperHex (byteHex b)"
  by (simp add: byteHex_def digitChar_props)

lemma asciiChar_byteHex:
  assumes "b < 256"
  shows "asciiChar (byteHex b) = (if 32 \<le> b \<and> b \<le> 126 then char_of b else CHR ''.'')"
proof -
  have "b div 16 < 16" "b mod 16 < 16" using assms by simp_all
  then have "parseInt (byteHex b) 16 = Some (16 * (b div 16) + b mod 16)"
    unfolding byteHex_def by (intro parseInt_pair) (simp_all add: digitChar_props)
  then show ?thesis by (simp add: asciiChar_def)
qed

lemma charCode_lt: "charCode c < 256"
  by (simp add: charCode_def)

lemma hexToAscii_asciiToHex:
  "list_all isPrintable t \<Longrightarrow> hexToAscii (asciiToHex t) = t"
proof (induction t)
  case Nil
  then show ?case by (simp add: asciiToHex_def)
next
  case (Cons c t)
  have "hexToAscii (asciiToHex (c # t)) = asciiChar (byteHex (charCode c)) # hexToAscii (asciiToHex t)"
    by (simp add: asciiToHex_def byteHex_def)
  moreover have "asciiChar (byteHex (charCode c)) = c"
    using Cons.prems by (simp add: asciiChar_byteHex charCode_lt isPrintable_def) (simp add: charCode_def)
  ultimately show ?case using Cons by simp
qed

lemma asciiToHex_upper: "list_all isUpperHex (asciiToHex t)"
  by (induction t) (simp_all add: asciiToHex_def byteHex_upper charCode_lt)

lemma length_asciiToHex: "length (asciiToHex t) = 2 * length t"
  by (induction t) (simp_all add: asciiToHex_def byteHex_def)


lemma upt8: "[0..<8] = [0, 1, 2, 3, 4, 5, 6, 7]"
  by code_simp

lemma byte_unrolled:
  "foldl (\<lambda>byte b. byte * 2 + g b) (0::nat) [0..<8] =
     16 * (8 * g 0 + 4 * g 1 + 2 * g 2 + g 3) + (8 * g 4 + 4 * g 5 + 2 * g 6 + g 7)"
  unfolding upt8 by simp

lemma div_mod_16:
  fixes N L :: nat
  assumes "L < 16"
  shows "(16 * N + L) div 16 = N" "(16 * N + L) mod 16 = L"
  using assms by simp_all

lemma nibble_bits:
  fixes a b c d :: nat
  assumes "a \<le> 1" "b \<le> 1" "c \<le> 1" "d \<le> 1"
  shows "(8 * a + 4 * b + 2 * c + d) div 8 mod 2 = a"
    and "(8 * a + 4 * b + 2 * c + d) div 4 mod 2 = b"
    and "(8 * a + 4 * b + 2 * c + d) div 2 mod 2 = c"
    and "(8 * a + 4 * b + 2 * c + d) mod 2 = d"
    and "8 * a + 4 * b + 2 * c + d < 16"
proof -
  have "a = 0 \<or> a = 1" "b = 0 \<or> b = 1" "c = 0 \<or> c = 1" "d = 0 \<or> d = 1"
    using assms by arith+
  then show "(8 * a + 4 * b + 2 * c + d) div 8 mod 2 = a"
    and "(8 * a + 4 * b + 2 * c + d) div 4 mod 2 = b"
    and "(8 * a + 4 * b + 2 * c + d) div 2 mod 2 = c"
    and "(8 * a + 4 * b + 2 * c + d) mod 2 = d"
    and "8 * a + 4 * b + 2 * c + d < 16"
    by auto
qed

lemma pos_lo: "(k::nat) div 4 mod 2 = 0 \<Longrightarrow> k div 8 * 8 + k mod 4 = k"
  by presburger
lemma pos_hi: "(k::nat) div 4 mod 2 \<noteq> 0 \<Longrightarrow> k div 8 * 8 + (4 + k mod 4) = k \<and> k div 4 mod 2 = 1"
  by presburger
lemma dd: "(k::nat) div 4 div 2 = k div 8"
  by (simp add: div_mult2_eq)

lemma nibble_bit_at:
  fixes g :: "nat \<Rightarrow> nat"
  assumes "\<forall>k. g k \<le> 1" "j < 4"
  shows "(8 * g 0 + 4 * g 1 + 2 * g 2 + g 3) div 2 ^ (3 - j) mod 2 = g j"
proof -
  have le: "g 0 \<le> 1" "g 1 \<le> 1" "g 2 \<le> 1" "g 3 \<le> 1" using assms(1) by simp_all
  have "j = 0 \<or> j = 1 \<or> j = 2 \<or> j = 3" using assms(2) by arith
  then show ?thesis
    using nibble_bits [OF le] by (elim disjE) simp_all
qed

lemma bitSet_bitmapHex:
  assumes "1 \<le> i" "i \<le> 64"
  shows "bitSet (bitmapHex bits) i = bits (i - 1)"
proof -
  define k where "k = i - 1"
  define y where "y = k div 8"
  define g where "g = (\<lambda>b. if bits (y * 8 + b) then 1 else (0::nat))"
  define byte where "byte = (\<lambda>i. foldl (\<lambda>byte b. byte * 2 + (if bits (i * 8 + b) then 1 else 0)) (0::nat) [0..<8])"
  have k: "k < 64" using assms by (simp add: k_def)
  have y: "y < 8" using k by (simp add: y_def)
  have gle: "\<forall>b. g b \<le> 1" by (simp add: g_def)
  have bval: "byte y = 16 * (8 * g 0 + 4 * g 1 + 2 * g 2 + g 3) + (8 * g 4 + 4 * g 5 + 2 * g 6 + g 7)"
    unfolding byte_def g_def by (rule byte_unrolled)
  have lo: "8 * g 4 + 4 * g 5 + 2 * g 6 + g 7 < 16"
    using gle nibble_bits(5) [of "g 4" "g 5" "g 6" "g 7"] by simp
  have hi: "8 * g 0 + 4 * g 1 + 2 * g 2 + g 3 < 16"
    using gle nibble_bits(5) [of "g 0" "g 1" "g 2" "g 3"] by simp
  have bdiv: "byte y div 16 = 8 * g 0 + 4 * g 1 + 2 * g 2 + g 3"
    and bmod: "byte y mod 16 = 8 * g 4 + 4 * g 5 + 2 * g 6 + g 7"
    unfolding bval using div_mod_16 [OF lo] by blast+
  have len: "length (bitmapHex bits) = 16"
    unfolding bitmapHex_def upt8 by (simp add: byteHex_def)
  have idx: "k div 4 < 16" using k by simp
  have "bitmapHex bits ! (k div 4) = byteHex (byte ([0..<8] ! (k div 4 div 2))) ! (k div 4 mod 2)"
    unfolding bitmapHex_def byte_def
    using idx by (intro concat_nth_uniform) (simp_all add: byteHex_def)
  moreover have "k div 4 div 2 = y" by (simp add: y_def dd)
  ultimately have ch: "bitmapHex bits ! (k div 4) = byteHex (byte y) ! (k div 4 mod 2)"
    using y by simp
  define j where "j = k mod 4"
  have j: "j < 4" by (simp add: j_def)
  have bs: "bitSet (bitmapHex bits) i =
      (case digitValue (bitmapHex bits ! (k div 4)) of
         None \<Rightarrow> False | Some v \<Rightarrow> (v div 2 ^ (3 - j)) mod 2 = 1)"
    unfolding bitSet_def k_def [symmetric] j_def [symmetric] using idx len by simp
  show ?thesis
  proof (cases "k div 4 mod 2 = 0")
    case True
    then have pos: "y * 8 + j = k" unfolding y_def j_def by (rule pos_lo)
    have "bitmapHex bits ! (k div 4) = digitChar (8 * g 0 + 4 * g 1 + 2 * g 2 + g 3)"
      using ch True by (simp add: byteHex_def bdiv)
    then have "bitSet (bitmapHex bits) i =
        ((8 * g 0 + 4 * g 1 + 2 * g 2 + g 3) div 2 ^ (3 - j) mod 2 = 1)"
      using digitChar_props [OF hi] by (simp add: bs)
    also have "\<dots> = (g j = 1)"
      using nibble_bit_at [OF gle j] by simp
    also have "\<dots> = bits k"
      using pos by (simp add: g_def)
    finally show ?thesis by (simp add: k_def)
  next
    case False
    then have pos: "y * 8 + (4 + j) = k" and one: "k div 4 mod 2 = 1"
      unfolding y_def j_def using pos_hi [of k] by blast+
    have "bitmapHex bits ! (k div 4) = digitChar (8 * g 4 + 4 * g 5 + 2 * g 6 + g 7)"
      using ch one by (simp add: byteHex_def bmod)
    then have "bitSet (bitmapHex bits) i =
        ((8 * g 4 + 4 * g 5 + 2 * g 6 + g 7) div 2 ^ (3 - j) mod 2 = 1)"
      using digitChar_props [OF lo] by (simp add: bs)
    also have "\<dots> = (g (4 + j) = 1)"
      using nibble_bit_at [of "\<lambda>b. g (4 + b)" j] gle j by simp
    also have "\<dots> = bits k"
      using pos by (simp add: g_def)
    finally show ?thesis by (simp add: k_def)
  qed
qed

lemma bitmapHex_upper: "list_all isUpperHex (bitmapHex bits)"
proof -
  have "foldl (\<lambda>byte b. byte * 2 + (if bits (i * 8 + b) then 1 else 0)) (0::nat) [0..<8] < 256" for i
  proof -
    define g where "g = (\<lambda>b. if bits (i * 8 + b) then 1 else (0::nat))"
    have gle: "\<forall>b. g b \<le> 1" by (simp add: g_def)
    have "8 * g 4 + 4 * g 5 + 2 * g 6 + g 7 < 16" "8 * g 0 + 4 * g 1 + 2 * g 2 + g 3 < 16"
      using gle nibble_bits(5) [of "g 4" "g 5" "g 6" "g 7"]
        nibble_bits(5) [of "g 0" "g 1" "g 2" "g 3"] by simp_all
    then have "foldl (\<lambda>byte b. byte * 2 + g b) (0::nat) [0..<8] < 256"
      unfolding byte_unrolled by arith
    then show ?thesis by (simp add: g_def)
  qed
  then have "list_all isUpperHex
      (byteHex (foldl (\<lambda>byte b. byte * 2 + (if bits (i * 8 + b) then 1 else 0)) 0 [0..<8]))" for i
    by (rule byteHex_upper)
  then show ?thesis
    unfolding bitmapHex_def list_all_iff by auto
qed

lemma length_bitmapHex: "length (bitmapHex bits) = 16"
  unfolding bitmapHex_def upt8 by (simp add: byteHex_def)


lemma isDigit_zero: "isDigit (CHR ''0'')"
  by (simp add: isDigit_def charCode_def)

lemma showNat_all_digits: "list_all isDigit (showNat n)"
  using showNat_digits by (auto simp: list_all_iff)

lemma showNat_nonempty: "showNat n \<noteq> []"
  by (subst showNat.simps) simp

lemma digitChar_code: "d < 10 \<Longrightarrow> charCode (digitChar d) - 48 = d"
proof -
  assume "d < 10"
  then have "d = 0 \<or> d = 1 \<or> d = 2 \<or> d = 3 \<or> d = 4 \<or> d = 5 \<or> d = 6
    \<or> d = 7 \<or> d = 8 \<or> d = 9" by arith
  then show ?thesis
    by (elim disjE) (simp_all add: digitChar_def charCode_def)
qed

lemma decimalValue_snoc: "decimalValue (s @ [c]) = decimalValue s * 10 + (charCode c - 48)"
  by (simp add: decimalValue_def)

lemma decimalValue_showNat: "decimalValue (showNat n) = n"
proof (induction n rule: showNat.induct)
  case (1 n)
  show ?case
  proof (cases "n < 10")
    case True
    then show ?thesis
      by (simp add: showNat.simps [of n] decimalValue_def digitChar_code)
  next
    case False
    then have "decimalValue (showNat n) = decimalValue (showNat (n div 10)) * 10 + n mod 10"
      by (simp add: showNat.simps [of n] decimalValue_snoc digitChar_code)
    then show ?thesis using 1 False by simp
  qed
qed

lemma length_showNat:
  "n < 10 \<Longrightarrow> length (showNat n) = 1"
  "10 \<le> n \<Longrightarrow> length (showNat n) = Suc (length (showNat (n div 10)))"
  by (simp_all add: showNat.simps [of n])

lemma length_showNat_100: "n < 100 \<Longrightarrow> length (showNat n) \<le> 2"
  by (cases "n < 10") (simp_all add: length_showNat)

lemma length_showNat_1000: "n < 1000 \<Longrightarrow> length (showNat n) \<le> 3"
proof (cases "n < 10")
  case True
  then show ?thesis by (simp add: length_showNat)
next
  case False
  assume "n < 1000"
  then have "n div 10 < 100" by simp
  then show ?thesis using False length_showNat_100 [of "n div 10"] by (simp add: length_showNat)
qed

lemma decimalValue_zeros: "decimalValue (replicate k (CHR ''0'') @ s) = decimalValue s"
proof -
  have "foldl (\<lambda>a c. a * 10 + (charCode c - 48)) 0 (replicate k (CHR ''0'')) = 0"
    by (induction k) (simp_all add: charCode_def)
  then show ?thesis by (simp add: decimalValue_def)
qed

lemma lengthPrefix_props:
  assumes "spec_format spec = ''LLVAR'' \<and> w = 2 \<and> n < 100
           \<or> spec_format spec = ''LLLVAR'' \<and> w = 4 \<and> n < 1000"
  shows "length (lengthPrefix spec n) = w"
    and "parseInt (lengthPrefix spec n) 10 = Some n"
    and "list_all isUpperHex (lengthPrefix spec n)"
proof -
  have lw: "length (showNat n) \<le> w"
    using assms length_showNat_100 [of n] length_showNat_1000 [of n] by auto
  have eq: "lengthPrefix spec n = replicate (w - length (showNat n)) (CHR ''0'') @ showNat n"
    using assms by (auto simp: lengthPrefix_def padStart_def)
  show "length (lengthPrefix spec n) = w"
    using lw by (simp add: eq)
  have d: "list_all isDigit (lengthPrefix spec n)"
    using showNat_all_digits [of n] by (auto simp: eq list_all_iff isDigit_zero)
  have ne: "lengthPrefix spec n \<noteq> []"
    using showNat_nonempty by (simp add: eq)
  show "parseInt (lengthPrefix spec n) 10 = Some n"
    using parseInt_decimal [OF d ne] by (simp add: eq decimalValue_zeros decimalValue_showNat)
  show "list_all isUpperHex (lengthPrefix spec n)"
    using d by (auto simp: list_all_iff isUpperHex_def)
qed

lemma take_middle: "take (length w) (drop (length pre) (pre @ w @ post)) = w"
  by simp

lemma roundUpEven_var: "(if n mod 2 = 0 then n else n + 1) = roundUpEven n"
  unfolding roundUpEven_def by presburger

lemma parseVar_ok:
  assumes "cur_pos st + w \<le> length hex"
    and "parseInt (take w (drop (cur_pos st) hex)) 10 = Some n" "n \<le> spec_maxLength spec"
    and "cur_pos st + w + varHexLen spec n \<le> length hex"
  shows "parseVar w pm im hex fieldNum spec st =
     Continue (pushField fieldNum spec (cur_pos st)
        (take (w + varHexLen spec n) (drop (cur_pos st) hex))
        (varValue spec (take (varHexLen spec n) (drop (cur_pos st + w) hex))) n
        (st\<lparr>cur_pos := cur_pos st + w + varHexLen spec n\<rparr>))"
  using assms by (simp add: parseVar_def Let_def substring_le take_prefix_data)

lemma step_fixed_hex:
  assumes spec: "FIELD_SPECS f = Some spec" and v: "validPayload spec (Hex w)"
    and hex: "hex = pre @ wireOf spec (Hex w) @ post" and pos: "cur_pos st = length pre"
  shows "parseField FIELD_SPECS hex f st =
     Continue (st\<lparr>cur_pos := length pre + length (wireOf spec (Hex w)),
                  cur_fields := cur_fields st @ [fieldOf f spec (Hex w) (length pre)],
                  cur_segments := cur_segments st @ [segmentOf f spec (Hex w) (length pre)]\<rparr>)"
proof -
  have fx: "spec_format spec = ''FIXED''" using v by simp
  have len: "fixedHexLen spec = length w"
    using v by (auto simp: fixedHexLen_alt roundUpEven_def)
  have pos0: "0 < length w"
    using v by (auto simp: roundUpEven_def)
  have inside: "cur_pos st < length hex" using pos0 by (simp add: hex pos)
  have enough: "cur_pos st + fixedHexLen spec \<le> length hex" by (simp add: hex pos len)
  have tk: "take (fixedHexLen spec) (drop (cur_pos st) hex) = w"
    by (simp add: hex pos len)
  have val: "fixedValue spec w = w"
    using v by (auto simp: fixedValue_def)
  show ?thesis
    unfolding parseField_fixed_ok [where FIELD_SPECS = FIELD_SPECS and fieldNum = f,
        OF spec fx inside enough] tk val
    by (simp add: pushField_def fieldOf_def segmentOf_def pos len)
qed

lemma step_fixed_text:
  assumes spec: "FIELD_SPECS f = Some spec" and v: "validPayload spec (Text t)"
    and fx: "spec_format spec = ''FIXED''"
    and hex: "hex = pre @ wireOf spec (Text t) @ post" and pos: "cur_pos st = length pre"
  shows "parseField FIELD_SPECS hex f st =
     Continue (st\<lparr>cur_pos := length pre + length (wireOf spec (Text t)),
                  cur_fields := cur_fields st @ [fieldOf f spec (Text t) (length pre)],
                  cur_segments := cur_segments st @ [segmentOf f spec (Text t) (length pre)]\<rparr>)"
proof -
  have ty: "isTextType (spec_type spec)" and pr: "list_all isPrintable t"
    and m: "0 < spec_maxLength spec" "length t = spec_maxLength spec"
    using v fx by (auto simp: isVariable_def)
  have wire: "wireOf spec (Text t) = asciiToHex t" using fx by simp
  note hex' = hex [unfolded wire]
  have len: "fixedHexLen spec = length (asciiToHex t)"
    using ty m by (simp add: fixedHexLen_def isTextType_def length_asciiToHex)
  have inside: "cur_pos st < length hex" using m by (simp add: hex' pos length_asciiToHex)
  have enough: "cur_pos st + fixedHexLen spec \<le> length hex" by (simp add: hex' pos len)
  have tk: "take (fixedHexLen spec) (drop (cur_pos st) hex) = asciiToHex t"
    by (simp add: hex' pos len)
  have val: "fixedValue spec (asciiToHex t) = t"
    using ty pr by (simp add: fixedValue_def isTextType_def hexToAscii_asciiToHex)
  show ?thesis
    unfolding parseField_fixed_ok [where FIELD_SPECS = FIELD_SPECS and fieldNum = f,
        OF spec fx inside enough] tk val
    using fx by (simp add: pushField_def fieldOf_def segmentOf_def pos len length_asciiToHex m)
qed

lemma step_variable:
  assumes spec: "FIELD_SPECS f = Some spec"
    and var: "isVariable spec n"
    and p: "p = VarHex n dat \<and> spec_type spec = ''n'' \<and> length dat = roundUpEven n \<and> val = dat
            \<or> p = Text val \<and> isTextType (spec_type spec) \<and> list_all isPrintable val
               \<and> n = length val \<and> dat = asciiToHex val"
    and hex: "hex = pre @ wireOf spec p @ post" and pos: "cur_pos st = length pre"
  shows "parseField FIELD_SPECS hex f st =
     Continue (st\<lparr>cur_pos := length pre + length (wireOf spec p),
                  cur_fields := cur_fields st @ [fieldOf f spec p (length pre)],
                  cur_segments := cur_segments st @ [segmentOf f spec p (length pre)]\<rparr>)"
proof -
  obtain w :: nat where w: "spec_format spec = ''LLVAR'' \<and> w = 2 \<and> n < 100
           \<or> spec_format spec = ''LLLVAR'' \<and> w = 4 \<and> n < 1000"
    using var unfolding isVariable_def by blast
  have nf: "spec_format spec \<noteq> ''FIXED''" using w by auto
  note lp = lengthPrefix_props [OF w]
  have wire: "wireOf spec p = lengthPrefix spec n @ dat" using p nf by auto
  have hl: "varHexLen spec n = length dat"
    using p by (auto simp: varHexLen_def roundUpEven_var isTextType_def length_asciiToHex)
  have vv: "varValue spec dat = val"
    using p by (auto simp: varValue_def isTextType_def hexToAscii_asciiToHex)
  have wr: "written p = val" using p by auto
  have pl: "(case p of Hex w \<Rightarrow> length w div 2 | VarHex n w \<Rightarrow> n | Text t \<Rightarrow> length t) = n"
    using p by auto
  have w0: "0 < w" using w by auto
  have inside: "\<not> cur_pos st \<ge> length hex" using w0 lp(1) by (simp add: hex pos wire)
  have a1: "cur_pos st + w \<le> length hex" using lp(1) by (simp add: hex pos wire)
  have a2: "parseInt (take w (drop (cur_pos st) hex)) 10 = Some n"
    using lp(1,2) by (simp add: hex pos wire)
  have a3: "n \<le> spec_maxLength spec" using var by (simp add: isVariable_def)
  have a4: "cur_pos st + w + varHexLen spec n \<le> length hex"
    using lp(1) by (simp add: hex pos wire hl)
  have t1: "take (w + varHexLen spec n) (drop (cur_pos st) hex) = lengthPrefix spec n @ dat"
    using lp(1) by (simp add: hex pos wire hl)
  have t2: "take (varHexLen spec n) (drop (cur_pos st + w) hex) = dat"
    using lp(1) by (simp add: hex pos wire hl)
  note pv = parseVar_ok [OF a1 a2 a3 a4, unfolded t1 t2 vv]
  have "parseField FIELD_SPECS hex f st =
      Continue (pushField f spec (cur_pos st) (lengthPrefix spec n @ dat) val n
        (st\<lparr>cur_pos := cur_pos st + w + varHexLen spec n\<rparr>))"
    using w spec inside pv by (auto simp: parseField_def)
  then show ?thesis
    using lp(1) by (simp add: pushField_def fieldOf_def segmentOf_def pos wire hl wr pl)
qed

lemma step_field:
  assumes spec: "FIELD_SPECS f = Some spec" and v: "validPayload spec p"
    and alike: "readAlike spec"
    and hex: "hex = pre @ wireOf spec p @ post" and pos: "cur_pos st = length pre"
  shows "parseField FIELD_SPECS hex f st =
     Continue (st\<lparr>cur_pos := length pre + length (wireOf spec p),
                  cur_fields := cur_fields st @ [fieldOf f spec p (length pre)],
                  cur_segments := cur_segments st @ [segmentOf f spec p (length pre)]\<rparr>)"
proof (cases p)
  case (Hex w)
  then show ?thesis
    using step_fixed_hex [where FIELD_SPECS = FIELD_SPECS and f = f, OF spec _ _ pos] v hex
    by simp
next
  case (VarHex n w)
  have var: "isVariable spec n" using v VarHex by simp
  then have "spec_format spec \<noteq> ''FIXED''" by (auto simp: isVariable_def)
  then have "spec_type spec = ''n'' \<and> length w = roundUpEven n"
    using v VarHex alike by (auto simp: readAlike_def)
  then show ?thesis
    using step_variable [where FIELD_SPECS = FIELD_SPECS and f = f and n = n and dat = w
        and val = w, OF spec var _ hex pos] VarHex by simp
next
  case (Text t)
  show ?thesis
  proof (cases "spec_format spec = ''FIXED''")
    case True
    then show ?thesis
      using step_fixed_text [where FIELD_SPECS = FIELD_SPECS and f = f, OF spec _ True _ pos]
        v hex Text by simp
  next
    case False
    then have "isVariable spec (length t)" using v Text by auto
    then show ?thesis
      using step_variable [where FIELD_SPECS = FIELD_SPECS and f = f and n = "length t"
          and dat = "asciiToHex t" and val = t, OF spec _ _ hex pos] v Text by simp
  qed
qed

lemma loop_roundtrip:
  assumes "\<forall>f \<in> set fs. \<exists>spec. FIELD_SPECS f = Some spec \<and> validPayload spec (payload f)
              \<and> readAlike spec"
    and "hex = pre @ concat (map (\<lambda>f. case FIELD_SPECS f of None \<Rightarrow> []
                         | Some spec \<Rightarrow> wireOf spec (payload f)) fs)"
    and "cur_pos st = length pre"
  shows "cur_pos (fieldLoop FIELD_SPECS hex fs st) = length hex
       \<and> cur_errors (fieldLoop FIELD_SPECS hex fs st) = cur_errors st
       \<and> map pf_de (cur_fields (fieldLoop FIELD_SPECS hex fs st)) = map pf_de (cur_fields st) @ fs
       \<and> map pf_decodedValue (cur_fields (fieldLoop FIELD_SPECS hex fs st))
           = map pf_decodedValue (cur_fields st) @ map (\<lambda>f. written (payload f)) fs"
  using assms
proof (induction fs arbitrary: pre st)
  case Nil
  then show ?case by simp
next
  case (Cons f fs)
  obtain spec where spec: "FIELD_SPECS f = Some spec" and v: "validPayload spec (payload f)"
    and alike: "readAlike spec"
    using Cons.prems(1) by auto
  let ?rest = "concat (map (\<lambda>f. case FIELD_SPECS f of None \<Rightarrow> []
                         | Some spec \<Rightarrow> wireOf spec (payload f)) fs)"
  let ?st = "st\<lparr>cur_pos := length pre + length (wireOf spec (payload f)),
                  cur_fields := cur_fields st @ [fieldOf f spec (payload f) (length pre)],
                  cur_segments := cur_segments st @ [segmentOf f spec (payload f) (length pre)]\<rparr>"
  have hex: "hex = pre @ wireOf spec (payload f) @ ?rest"
    using Cons.prems(2) spec by simp
  have step: "parseField FIELD_SPECS hex f st = Continue ?st"
    using step_field [where FIELD_SPECS = FIELD_SPECS and f = f, OF spec v alike hex Cons.prems(3)] .
  have hex2: "hex = (pre @ wireOf spec (payload f)) @ ?rest"
    using hex by simp
  have pos2: "cur_pos ?st = length (pre @ wireOf spec (payload f))" by simp
  have rest: "\<forall>f \<in> set fs. \<exists>spec. FIELD_SPECS f = Some spec \<and> validPayload spec (payload f)
                \<and> readAlike spec"
    using Cons.prems(1) by simp
  note ih = Cons.IH [OF rest hex2 pos2]
  show ?case
    using ih by (simp add: step fieldOf_def)
qed

lemma sorted_filter_range:
  assumes "sorted fs" "distinct fs"
  shows "filter (\<lambda>i. i \<in> set fs) [a..<b] = filter (\<lambda>f. a \<le> f \<and> f < b) fs"
proof (rule sorted_distinct_set_unique)
  show "sorted (filter (\<lambda>i. i \<in> set fs) [a..<b])" by (simp add: sorted_wrt_filter)
  show "distinct (filter (\<lambda>i. i \<in> set fs) [a..<b])" by simp
  show "sorted (filter (\<lambda>f. a \<le> f \<and> f < b) fs)" using assms(1) by (simp add: sorted_wrt_filter)
  show "distinct (filter (\<lambda>f. a \<le> f \<and> f < b) fs)" using assms(2) by simp
  show "set (filter (\<lambda>i. i \<in> set fs) [a..<b]) = set (filter (\<lambda>f. a \<le> f \<and> f < b) fs)"
    by auto
qed

lemma sorted_split:
  "sorted (fs :: nat list) \<Longrightarrow> filter (\<lambda>f. f \<le> c) fs @ filter (\<lambda>f. f > c) fs = fs"
proof (induction fs)
  case Nil
  then show ?case by simp
next
  case (Cons x xs)
  show ?case
  proof (cases "x \<le> c")
    case True
    then show ?thesis using Cons by simp
  next
    case False
    then have "\<forall>y \<in> set xs. \<not> y \<le> c" using Cons.prems by auto
    then have "filter (\<lambda>f. f \<le> c) xs = []" "filter (\<lambda>f. f > c) xs = xs"
      by (auto simp: filter_empty_conv filter_id_conv)
    then show ?thesis using False by simp
  qed
qed

lemma shifted_range: "map (\<lambda>i. i + 64) [1..<65] = [65..<129]"
  by code_simp
lemma built_primary:
  assumes srt: "sorted fs" and dst: "distinct fs" and rng: "\<forall>f \<in> set fs. 2 \<le> f \<and> f \<le> 128"
    and pf: "pf = (if filter (\<lambda>f. f > 64) fs \<noteq> [] then filter (\<lambda>f. f \<le> 64) fs @ [1]
                   else filter (\<lambda>f. f \<le> 64) fs)"
  shows "bm_activeFields (primaryBitmapInfo (buildBitmap pf) p) = filter (\<lambda>f. f \<le> 64) fs"
    and "bm_hasSecondary (primaryBitmapInfo (buildBitmap pf) p) = (filter (\<lambda>f. f > 64) fs \<noteq> [])"
proof -
  let ?P = "buildBitmap pf"
  have hx: "list_all isHexChar ?P" and len: "length ?P = 16"
    unfolding buildBitmap_def by (simp_all add: list_upperHex_hex bitmapHex_upper length_bitmapHex)
  have inpf: "f \<in> set pf \<Longrightarrow> 1 \<le> f \<and> f \<le> 64" for f
    using rng pf by (auto split: if_splits)
  have bit: "bitSet ?P i = (i \<in> set pf)" if "1 \<le> i" "i \<le> 64" for i
  proof -
    have "bitSet ?P i = (\<exists>f \<in> set pf. f \<ge> 1 \<and> f \<le> 64 \<and> f - 1 = i - 1)"
      unfolding buildBitmap_def using that by (rule bitSet_bitmapHex)
    also have "\<dots> = (i \<in> set pf)"
    proof
      assume "\<exists>f \<in> set pf. f \<ge> 1 \<and> f \<le> 64 \<and> f - 1 = i - 1"
      then obtain f where "f \<in> set pf" "f \<ge> 1" "f - 1 = i - 1" by blast
      then have "f = i" using that by arith
      then show "i \<in> set pf" using \<open>f \<in> set pf\<close> by simp
    next
      assume "i \<in> set pf"
      then show "\<exists>f \<in> set pf. f \<ge> 1 \<and> f \<le> 64 \<and> f - 1 = i - 1"
        using that by blast
    qed
    finally show ?thesis .
  qed
  have "filter (bitSet ?P) [2..<65] = filter (\<lambda>i. i \<in> set fs) [2..<65]"
  proof (rule filter_cong [OF refl])
    fix i assume "i \<in> set [2..<65]"
    then have i: "2 \<le> i" "i \<le> 64" by (simp_all del: upt_rec_numeral)
    then have "bitSet ?P i = (i \<in> set pf)" using bit [of i] by simp
    also have "\<dots> = (i \<in> set fs)" using i pf by (auto split: if_splits)
    finally show "bitSet ?P i = (i \<in> set fs)" .
  qed
  also have "\<dots> = filter (\<lambda>f. 2 \<le> f \<and> f < 65) fs"
    using srt dst by (rule sorted_filter_range)
  also have "\<dots> = filter (\<lambda>f. f \<le> 64) fs"
    using rng by (intro filter_cong) auto
  finally show "bm_activeFields (primaryBitmapInfo ?P p) = filter (\<lambda>f. f \<le> 64) fs"
    using primary_active [OF hx len, of p] by simp
  have "bitSet ?P 1 = (1 \<in> set pf)" using bit [of 1] by simp
  also have "\<dots> = (filter (\<lambda>f. f > 64) fs \<noteq> [])"
    using rng pf by (auto split: if_splits)
  finally show "bm_hasSecondary (primaryBitmapInfo ?P p) = (filter (\<lambda>f. f > 64) fs \<noteq> [])"
    using primary_hasSecondary [OF hx len, of p] by simp
qed

lemma built_secondary:
  assumes srt: "sorted fs" and dst: "distinct fs" and rng: "\<forall>f \<in> set fs. 2 \<le> f \<and> f \<le> 128"
  shows "bm_activeFields (secondaryBitmapInfo
            (bitmapHex (\<lambda>k. \<exists>f \<in> set (filter (\<lambda>f. f > 64) fs). f - 65 = k)) p)
         = filter (\<lambda>f. f > 64) fs"
proof -
  let ?S = "bitmapHex (\<lambda>k. \<exists>f \<in> set (filter (\<lambda>f. f > 64) fs). f - 65 = k)"
  have hx: "list_all isHexChar ?S" and len: "length ?S = 16"
    by (simp_all add: list_upperHex_hex bitmapHex_upper length_bitmapHex)
  have bit: "bitSet ?S i = (i + 64 \<in> set fs)" if "1 \<le> i" "i \<le> 64" for i
  proof -
    have "bitSet ?S i = (\<exists>f \<in> set (filter (\<lambda>f. f > 64) fs). f - 65 = i - 1)"
      using that by (rule bitSet_bitmapHex)
    also have "\<dots> = (i + 64 \<in> set fs)"
    proof
      assume "\<exists>f \<in> set (filter (\<lambda>f. f > 64) fs). f - 65 = i - 1"
      then obtain f where f: "f \<in> set fs" "f > 64" "f - 65 = i - 1" by auto
      then have "f = i + 64" using that by arith
      then show "i + 64 \<in> set fs" using f(1) by simp
    next
      assume a: "i + 64 \<in> set fs"
      have "i + 64 > 64" "i + 64 - 65 = i - 1" using that by arith+
      then show "\<exists>f \<in> set (filter (\<lambda>f. f > 64) fs). f - 65 = i - 1"
        using a by (intro bexI [of _ "i + 64"]) simp_all
    qed
    finally show ?thesis .
  qed
  have "filter (bitSet ?S) [1..<65] = filter (\<lambda>i. i + 64 \<in> set fs) [1..<65]"
  proof (rule filter_cong [OF refl])
    fix i assume "i \<in> set [1..<65]"
    then have "1 \<le> i" "i \<le> 64" by (simp_all del: upt_rec_numeral)
    then show "bitSet ?S i = (i + 64 \<in> set fs)" by (rule bit)
  qed
  then have "map (\<lambda>i. i + 64) (filter (bitSet ?S) [1..<65])
      = filter (\<lambda>j. j \<in> set fs) (map (\<lambda>i. i + 64) [1..<65])"
    by (simp only: filter_map comp_def)
  also have "\<dots> = filter (\<lambda>j. j \<in> set fs) [65..<129]"
    by (simp only: shifted_range)
  also have "\<dots> = filter (\<lambda>f. 65 \<le> f \<and> f < 129) fs"
    using srt dst by (rule sorted_filter_range)
  also have "\<dots> = filter (\<lambda>f. f > 64) fs"
    using rng by (intro filter_cong) auto
  finally show ?thesis
    using secondary_active [OF hx len, of p] by simp
qed
lemma variable_prefix_upper:
  assumes "isVariable spec n"
  shows "list_all isUpperHex (lengthPrefix spec n)"
proof -
  obtain k :: nat where "spec_format spec = ''LLVAR'' \<and> k = 2 \<and> n < 100
           \<or> spec_format spec = ''LLLVAR'' \<and> k = 4 \<and> n < 1000"
    using assms unfolding isVariable_def by blast
  then show ?thesis by (rule lengthPrefix_props(3))
qed

lemma wire_upper:
  assumes "validPayload spec p"
  shows "list_all isUpperHex (wireOf spec p)"
proof (cases p)
  case (Hex w)
  then show ?thesis using assms by simp
next
  case (VarHex n w)
  then have "isVariable spec n" "list_all isUpperHex w" using assms by simp_all
  then show ?thesis using VarHex variable_prefix_upper [of spec n] by simp
next
  case (Text t)
  show ?thesis
  proof (cases "spec_format spec = ''FIXED''")
    case True
    then show ?thesis using Text by (simp add: asciiToHex_upper)
  next
    case False
    then have "isVariable spec (length t)" using assms Text by simp
    then show ?thesis
      using Text False variable_prefix_upper [of spec "length t"] by (simp add: asciiToHex_upper)
  qed
qed
lemma numHex_valid:
  assumes "list_all isDigit val" "length val \<le> maxLen" "0 < maxLen"
    and "spec_format spec = ''FIXED''" "spec_type spec = ''n''" "spec_maxLength spec = maxLen"
  shows "validPayload spec (Hex (numHex val maxLen))"
proof -
  have d: "list_all isUpperHex (padStart maxLen (CHR ''0'') val)"
    using assms(1) isDigit_zero by (auto simp: padStart_def list_all_iff isUpperHex_def)
  have l: "length (padStart maxLen (CHR ''0'') val) = maxLen"
    using assms(2) by (simp add: padStart_def)
  have z: "isUpperHex (CHR ''0'')"
    using isDigit_zero by (simp add: isUpperHex_def)
  have r: "roundUpEven maxLen = (if maxLen mod 2 \<noteq> 0 then Suc maxLen else maxLen)"
    unfolding roundUpEven_def by presburger
  show ?thesis
    using assms(3-6) d l z r by (simp add: numHex_def Let_def)
qed

lemma buildDualBitmap_cases:
  assumes rng: "\<forall>f \<in> set fs. 2 \<le> f \<and> f \<le> 128"
  defines "pf \<equiv> (if filter (\<lambda>f. f > 64) fs \<noteq> [] then filter (\<lambda>f. f \<le> 64) fs @ [1]
                   else filter (\<lambda>f. f \<le> 64) fs)"
  shows "buildDualBitmap fs =
     (if filter (\<lambda>f. f > 64) fs = [] then buildBitmap pf
      else buildBitmap pf @ bitmapHex (\<lambda>k. \<exists>f \<in> set (filter (\<lambda>f. f > 64) fs). f - 65 = k))"
proof -
  have "1 \<notin> set (filter (\<lambda>f. f \<le> 64) fs)" using rng by auto
  then show ?thesis
    unfolding buildDualBitmap_def Let_def pf_def by simp
qed

lemma trailingData_done: "cur_pos st = length hex \<Longrightarrow> trailingData hex st = st"
  by (simp add: trailingData_def)

lemma overallSuccess_Nil: "overallSuccess []"
  by (simp add: overallSuccess_def)

text \<open>
  The round trip, where the two branches of the parser read a specification alike. A
  message is built from an MTI of four hex digits, field numbers in ascending order
  between 2 and 128 that all have a specification, the bitmaps of \<open>buildDualBitmap\<close>
  for these numbers, and a valid payload for each field; no variable-length field is of
  type \<open>b\<close> or \<open>x+n\<close>. Parsing it returns exactly these field numbers in this order
  (so the fields of the primary bitmap come before those of the secondary bitmap), each
  with the decoded value equal to what was written: the hex digits for numeric and
  binary fields, the text for text fields. No error is logged.
\<close>

lemma round_trip:
  fixes FIELD_SPECS :: FieldSpecs and T :: MTITables
  defines "r \<equiv> (\<lambda>mti fs payload. parseISO8583 FIELD_SPECS T (buildMessage FIELD_SPECS mti fs payload))"
  assumes mti: "length mti = 4" "list_all isUpperHex mti"
    and srt: "sorted fs" and dst: "distinct fs"
    and rng: "\<forall>f \<in> set fs. 2 \<le> f \<and> f \<le> 128"
    and ok: "\<forall>f \<in> set fs. \<exists>spec. FIELD_SPECS f = Some spec \<and> validPayload spec (payload f)
                \<and> readAlike spec"
  shows "map pf_de (res_fields (r mti fs payload)) = fs
       \<and> map pf_decodedValue (res_fields (r mti fs payload)) = map (\<lambda>f. written (payload f)) fs
       \<and> res_errors (r mti fs payload) = []
       \<and> res_success (r mti fs payload)"
proof -
  define sec where "sec = filter (\<lambda>f. f > 64) fs"
  define pri where "pri = filter (\<lambda>f. f \<le> 64) fs"
  define pf where "pf = (if filter (\<lambda>f. f > 64) fs \<noteq> [] then filter (\<lambda>f. f \<le> 64) fs @ [1]
                         else filter (\<lambda>f. f \<le> 64) fs)"
  define P where "P = buildBitmap pf"
  define S where "S = bitmapHex (\<lambda>k. \<exists>f \<in> set (filter (\<lambda>f. f > 64) fs). f - 65 = k)"
  let ?wire = "\<lambda>f. case FIELD_SPECS f of None \<Rightarrow> [] | Some spec \<Rightarrow> wireOf spec (payload f)"
  define dat where "dat = concat (map ?wire fs)"
  define dual where "dual = (if sec = [] then P else P @ S)"
  define msg where "msg = mti @ dual @ dat"
  have msg: "buildMessage FIELD_SPECS mti fs payload = msg"
    unfolding buildMessage_def msg_def dual_def dat_def pf_def P_def S_def sec_def
    using buildDualBitmap_cases [OF rng] by simp
  have lP: "length P = 16" and lS: "length S = 16"
    by (simp_all add: P_def S_def buildBitmap_def length_bitmapHex)
  have ldual: "length dual = (if sec = [] then 16 else 32)"
    by (simp add: dual_def lP lS)
  have uP: "list_all isUpperHex P" and uS: "list_all isUpperHex S"
    by (simp_all add: P_def S_def buildBitmap_def bitmapHex_upper)
  have uw: "list_all isUpperHex (?wire f)" if "f \<in> set fs" for f
  proof -
    have "\<exists>spec. FIELD_SPECS f = Some spec \<and> validPayload spec (payload f) \<and> readAlike spec"
      using ok that by (rule bspec)
    then obtain spec where s: "FIELD_SPECS f = Some spec" "validPayload spec (payload f)"
      by (elim exE conjE)
    have "list_all isUpperHex (wireOf spec (payload f))"
      using s(2) by (rule wire_upper)
    then show ?thesis by (simp add: s(1))
  qed
  have udat: "list_all isUpperHex dat"
    unfolding dat_def using uw by (simp add: list_all_iff)
  have umsg: "list_all isUpperHex msg"
    using mti(2) uP uS udat by (simp add: msg_def dual_def)
  have norm: "normalizeInput msg = msg"
    using umsg by (rule normalizeInput_upperHex)
  have hmsg: "list_all isHexChar (normalizeInput msg)"
    unfolding norm using umsg by (rule list_upperHex_hex)
  have long: "20 \<le> length (normalizeInput msg)"
    unfolding norm by (simp add: msg_def mti(1) ldual)
  have sP: "substring msg 4 (4 + 16) = P"
    by (simp add: substring_le msg_def dual_def mti(1) lP)
  have sS: "sec \<noteq> [] \<Longrightarrow> substring msg 20 (20 + 16) = S"
    by (simp add: substring_le msg_def dual_def mti(1) lP lS)
  note bp = built_primary [OF srt dst rng pf_def, of 4, folded P_def sec_def pri_def]
  note bs = built_secondary [OF srt dst rng, of 20, folded S_def sec_def]
  have split: "pri @ sec = fs"
    unfolding pri_def sec_def using srt by (rule sorted_split)
  have pb: "bm_activeFields (primaryBitmapOf msg) = pri"
    "bm_hasSecondary (primaryBitmapOf msg) = (sec \<noteq> [])"
    unfolding primaryBitmapOf_def sP using bp by simp_all
  have short: "sec \<noteq> [] \<Longrightarrow> \<not> 20 + 16 > length msg"
    by (simp add: msg_def mti(1) ldual)
  have sb: "secondaryBitmapOf msg =
      (if sec \<noteq> [] then Some (secondaryBitmapInfo S 20) else None)"
    unfolding secondaryBitmapOf_def using pb(2) short sS by simp
  have act: "allActiveFields msg = fs"
    unfolding allActiveFields_def sb pb(1) using bs split by auto
  have entry: "cur_pos (loopEntry T msg) = length (mti @ dual)"
    "cur_errors (loopEntry T msg) = []" "cur_fields (loopEntry T msg) = []"
    unfolding loopEntry_def Let_def using pb(2) short
    by (simp_all add: mti(1) ldual)
  have msg2: "msg = (mti @ dual) @ dat" by (simp add: msg_def)
  note lr = loop_roundtrip [OF ok msg2 [unfolded dat_def] entry(1), folded dat_def msg2]
  let ?fin = "fieldLoop FIELD_SPECS msg fs (loopEntry T msg)"
  have td: "trailingData msg ?fin = ?fin"
    using lr by (intro trailingData_done) simp
  have res: "res_fields (r mti fs payload) = cur_fields ?fin"
    "res_errors (r mti fs payload) = cur_errors ?fin"
    "res_success (r mti fs payload) = overallSuccess (cur_errors ?fin)"
    unfolding r_def msg parse_long [OF hmsg long] Let_def norm act td by simp_all
  show ?thesis
    unfolding res using lr entry by (simp add: overallSuccess_Nil)
qed


lemma round_trip_example:
  "buildMessage presetSpecs ''0100'' [2, 41, 70]
      (\<lambda>f. if f = 2 then VarHex 16 ''4111111111111111''
           else if f = 41 then Text ''TERM0001'' else Hex ''0301'')
     = ''0100C00000000080000004000000000000001641111111111111115445524D303030310301''
   \<and> map pf_de (res_fields (parseISO8583 presetSpecs noTables
        ''0100C00000000080000004000000000000001641111111111111115445524D303030310301''))
       = [2, 41, 70]
   \<and> map pf_decodedValue (res_fields (parseISO8583 presetSpecs noTables
        ''0100C00000000080000004000000000000001641111111111111115445524D303030310301''))
       = [''4111111111111111'', ''TERM0001'', ''0301'']
   \<and> res_errors (parseISO8583 presetSpecs noTables
        ''0100C00000000080000004000000000000001641111111111111115445524D303030310301'') = []"
proof -
  let ?payload = "\<lambda>f::nat. if f = 2 then VarHex 16 ''4111111111111111''
           else if f = 41 then Text ''TERM0001'' else Hex ''0301''"
  have m: "buildMessage presetSpecs ''0100'' [2, 41, 70] ?payload
     = ''0100C00000000080000004000000000000001641111111111111115445524D303030310301''"
    by code_simp
  have a: "length ''0100'' = 4" "list_all isUpperHex ''0100''"
    by code_simp+
  have b: "sorted [2, 41, 70 :: nat]" "distinct [2, 41, 70 :: nat]"
    "\<forall>f \<in> set [2, 41, 70 :: nat]. 2 \<le> f \<and> f \<le> 128"
    by simp_all
  have v: "validPayload (mkSpec ''LLVAR'' ''n'' 19) (VarHex 16 ''4111111111111111'')"
    "validPayload (mkSpec ''FIXED'' ''ans'' 8) (Text ''TERM0001'')"
    "validPayload (mkSpec ''FIXED'' ''n'' 3) (Hex ''0301'')"
    "readAlike (mkSpec ''LLVAR'' ''n'' 19)" "readAlike (mkSpec ''FIXED'' ''ans'' 8)"
    "readAlike (mkSpec ''FIXED'' ''n'' 3)"
    by code_simp+
  have c: "\<forall>f \<in> set [2, 41, 70 :: nat].
             \<exists>spec. presetSpecs f = Some spec \<and> validPayload spec (?payload f) \<and> readAlike spec"
    using v by (simp add: presetSpecs_def)
  show ?thesis
    using m round_trip [OF a b c, of noTables] by simp
qed


end
